theory Spec2Isabelle
  imports Complex_Main
begin

section \<open>GameRoom: the room actor of src/src/game-room.js\<close>

text \<open>
  The embedding follows \<^verbatim>\<open>src/src/game-room.js\<close>. JavaScript numbers that carry
  time, coordinates and speeds are modelled as \<^typ>\<open>real\<close> (rounding of doubles is not
  modelled), scores as \<^typ>\<open>int\<close>, millisecond timestamps of \<^verbatim>\<open>Date.now()\<close>
  as \<^typ>\<open>int\<close>. A JavaScript \<^verbatim>\<open>Map\<close> iterates in insertion order, so the two
  rosters are association lists. Each connection gets its player id in \<^verbatim>\<open>fetch\<close>
  before any message can arrive, so a connection is identified with that id. The room is
  modelled after \<^verbatim>\<open>_ensureInitialized\<close> has run (\<^verbatim>\<open>initialized = true\<close>); writes
  to durable storage and to socket attachments are not part of the model.
\<close>

subsection \<open>Constants\<close>

definition CANVAS_WIDTH :: real where "CANVAS_WIDTH = 960"
definition CANVAS_HEIGHT :: real where "CANVAS_HEIGHT = 540"
definition GROUND_Y :: real where "GROUND_Y = CANVAS_HEIGHT - 40"
definition PLAYER_WIDTH :: real where "PLAYER_WIDTH = 60"
definition PLAYER_HEIGHT :: real where "PLAYER_HEIGHT = 70"
definition COIN_RADIUS :: real where "COIN_RADIUS = 16"

definition BROADCAST_THROTTLE_MS :: int where "BROADCAST_THROTTLE_MS = 50"
definition FALLBACK_ALARM_MS :: int where "FALLBACK_ALARM_MS = 1000"
definition MAX_PHYSICS_DT :: real where "MAX_PHYSICS_DT = 2 / 10"
definition GAME_DURATION :: real where "GAME_DURATION = 60"
definition COUNTDOWN_SECONDS :: int where "COUNTDOWN_SECONDS = 5"
definition GAME_OVER_DISPLAY_SECONDS :: int where "GAME_OVER_DISPLAY_SECONDS = 5"
definition LOBBY_IDLE_TIMEOUT :: int where "LOBBY_IDLE_TIMEOUT = 20"
definition MAX_PLAYERS :: nat where "MAX_PLAYERS = 5"

definition COIN_BASE_SPEED :: real where "COIN_BASE_SPEED = 89"
definition COIN_SPEED_VARIATION :: real where "COIN_SPEED_VARIATION = 71"
definition COIN_SPAWN_INTERVAL :: real where "COIN_SPAWN_INTERVAL = 5 / 10"
definition COLLISION_FORGIVENESS :: real where "COLLISION_FORGIVENESS = 8"

definition PLAYER_COLORS :: "string list" where
  "PLAYER_COLORS = [''#e74c3c'', ''#3498db'', ''#2ecc71'', ''#f39c12'', ''#9b59b6'']"

lemmas geometry_defs =
  CANVAS_WIDTH_def CANVAS_HEIGHT_def GROUND_Y_def PLAYER_WIDTH_def PLAYER_HEIGHT_def
  COIN_RADIUS_def COLLISION_FORGIVENESS_def

subsection \<open>Data\<close>

type_synonym pid = nat

record coin =
  cid :: nat
  cx :: real
  cy :: real
  speed :: real
  radius :: real
  rotation :: real
  rotationSpeed :: real
  wobbleOffset :: real
  wobbleAmount :: real

record player =
  px :: real
  score :: int
  color :: string
  name :: string
  hat :: string
  userId :: "string option"

record waiter =
  wcolor :: string
  wname :: string
  what :: string
  wuserId :: "string option"

record collectedEvent =
  playerId :: pid
  ex :: real
  ey :: real

datatype room_state = LOBBY | COUNTDOWN | PLAYING | GAME_OVER

record room =
  state :: room_state
  players :: "(pid \<times> player) list"
  waitingRoom :: "(pid \<times> waiter) list"
  coins :: "coin list"
  nextCoinId :: nat
  timeLeft :: real
  countdownSeconds :: int
  coinSpawnAccumulator :: real
  lastPhysicsTime :: int
  lastBroadcastTime :: int
  pendingCollected :: "collectedEvent list"

subsection \<open>Physics: \<^verbatim>\<open>_spawnCoin\<close> and \<^verbatim>\<open>_advancePhysics\<close>\<close>

text \<open>
  \<^verbatim>\<open>Math.random()\<close> is an input: \<open>rnd k\<close> is the value of the \<open>k\<close>-th call made
  during one physics step. \<^verbatim>\<open>_spawnCoin\<close> returns before drawing anything when the
  cap of 50 coins is reached, and draws six numbers otherwise, in the order of the
  object literal.
\<close>

definition spawnCoin :: "(nat \<Rightarrow> real) \<Rightarrow> nat \<Rightarrow> room \<Rightarrow> nat \<times> room" where
  "spawnCoin rnd k s =
     (if length (coins s) \<ge> 50 then (k, s)
      else (k + 6,
        s\<lparr>coins := coins s @
             [\<lparr>cid = nextCoinId s,
               cx = COIN_RADIUS + rnd k * (CANVAS_WIDTH - COIN_RADIUS * 2),
               cy = - COIN_RADIUS,
               speed = COIN_BASE_SPEED + rnd (k + 1) * COIN_SPEED_VARIATION,
               radius = COIN_RADIUS,
               rotation = rnd (k + 2) * pi * 2,
               rotationSpeed = 3 + rnd (k + 3) * 4,
               wobbleOffset = rnd (k + 4) * pi * 2,
               wobbleAmount = 3 / 10 + rnd (k + 5) * (5 / 10)\<rparr>],
          nextCoinId := nextCoinId s + 1\<rparr>))"

text \<open>
  The spawn loop \<^verbatim>\<open>while (acc >= COIN_SPAWN_INTERVAL) { acc -= ...; spawn }\<close>.
\<close>

function spawnLoop :: "(nat \<Rightarrow> real) \<Rightarrow> nat \<Rightarrow> room \<Rightarrow> room" where
  "spawnLoop rnd k s =
     (if coinSpawnAccumulator s \<ge> COIN_SPAWN_INTERVAL
      then (case spawnCoin rnd k
                   (s\<lparr>coinSpawnAccumulator := coinSpawnAccumulator s - COIN_SPAWN_INTERVAL\<rparr>)
            of (k', s') \<Rightarrow> spawnLoop rnd k' s')
      else s)"
  by pat_completeness auto

termination spawnLoop
  apply (relation "measure (\<lambda>(rnd, k, s). nat \<lceil>coinSpawnAccumulator s * 2\<rceil>)")
   apply simp
  apply (auto simp: spawnCoin_def COIN_SPAWN_INTERVAL_def split: if_splits)
  done

declare spawnLoop.simps [simp del]

text \<open>
  One coin's motion: the three updates at the top of the loop body.
\<close>

definition moveCoin :: "real \<Rightarrow> coin \<Rightarrow> coin" where
  "moveCoin dt c =
     (let y' = cy c + speed c * dt;
          x' = cx c + sin (y' * (2 / 100) + wobbleOffset c) * wobbleAmount c
      in c\<lparr>cx := x', cy := y', rotation := rotation c + rotationSpeed c * dt\<rparr>)"

text \<open>The ground test \<^verbatim>\<open>coin.y - COIN_RADIUS > GROUND_Y\<close>.\<close>

definition pastGround :: "coin \<Rightarrow> bool" where
  "pastGround c \<longleftrightarrow> cy c - COIN_RADIUS > GROUND_Y"

text \<open>The box-to-circle test of the inner loop.\<close>

definition hits :: "coin \<Rightarrow> player \<Rightarrow> bool" where
  "hits c p =
     (let playerY = GROUND_Y - PLAYER_HEIGHT;
          closestX = max (px p) (min (cx c) (px p + PLAYER_WIDTH));
          closestY = max playerY (min (cy c) (playerY + PLAYER_HEIGHT));
          distX = cx c - closestX;
          distY = cy c - closestY;
          distSq = distX * distX + distY * distY;
          hitRadius = COIN_RADIUS + COLLISION_FORGIVENESS
      in distSq < hitRadius * hitRadius)"

text \<open>
  The inner loop \<^verbatim>\<open>for (const [playerId, player] of this.players)\<close>: the first
  entry that passes the test gets \<^verbatim>\<open>score += 10\<close> and the loop breaks. The result is
  the updated roster and the id of the catcher, or \<open>None\<close> when nobody is hit.
\<close>

fun creditFirstHit :: "coin \<Rightarrow> (pid \<times> player) list \<Rightarrow> ((pid \<times> player) list \<times> pid) option" where
  "creditFirstHit c [] = None"
| "creditFirstHit c ((i, p) # ps) =
     (if hits c p then Some ((i, p\<lparr>score := score p + 10\<rparr>) # ps, i)
      else (case creditFirstHit c ps of
              None \<Rightarrow> None
            | Some (ps', w) \<Rightarrow> Some ((i, p) # ps', w)))"

text \<open>
  The outer loop \<^verbatim>\<open>for (let i = this.coins.length - 1; i >= 0; i--)\<close>. It walks the
  array from its last index down to 0 and \<^verbatim>\<open>splice(i, 1)\<close> removes only the coin in
  hand, so the coins at smaller indices keep their places: the tail of the list is
  processed before its head. The result is the remaining coins, the roster and the events
  pushed so far.
\<close>

fun coinLoop :: "real \<Rightarrow> coin list \<Rightarrow> (pid \<times> player) list \<Rightarrow> collectedEvent list
    \<Rightarrow> coin list \<times> (pid \<times> player) list \<times> collectedEvent list" where
  "coinLoop dt [] ps col = ([], ps, col)"
| "coinLoop dt (c # cs) ps col =
     (case coinLoop dt cs ps col of (cs', ps', col') \<Rightarrow>
        (let coin = moveCoin dt c in
         if pastGround coin then (cs', ps', col')
         else (case creditFirstHit coin ps' of
                 Some (ps'', w) \<Rightarrow>
                   (cs', ps'', col' @ [\<lparr>playerId = w, ex = cx coin, ey = cy coin\<rparr>])
               | None \<Rightarrow> (coin # cs', ps', col'))))"

text \<open>
  \<^verbatim>\<open>_advancePhysics(dt)\<close>: the first part decrements \<^verbatim>\<open>timeLeft\<close> and spawns, the
  second is the coin loop; the function returns the events of this step.
\<close>

definition spawnPhase :: "(nat \<Rightarrow> real) \<Rightarrow> real \<Rightarrow> room \<Rightarrow> room" where
  "spawnPhase rnd dt s =
     (let s1 = s\<lparr>timeLeft := timeLeft s - dt\<rparr>
      in spawnLoop rnd 0 (s1\<lparr>coinSpawnAccumulator := coinSpawnAccumulator s1 + dt\<rparr>))"

definition advancePhysics :: "(nat \<Rightarrow> real) \<Rightarrow> real \<Rightarrow> room \<Rightarrow> room \<times> collectedEvent list" where
  "advancePhysics rnd dt s =
     (let s2 = spawnPhase rnd dt s
      in (case coinLoop dt (coins s2) (players s2) [] of
            (cs, ps, caught) \<Rightarrow> (s2\<lparr>coins := cs, players := ps\<rparr>, caught)))"

subsection \<open>Messages and effects\<close>

record rankedEntry =
  rplayerId :: pid
  rname :: string
  rscore :: int
  rcolor :: string
  rhat :: string
  ruserId :: "string option"

record rankedPlayer = rankedEntry +
  coinsEarned :: int
  isWinner :: bool

record coinAward =
  auserId :: string
  acoinsEarned :: int
  aisWinner :: bool
  aname :: string

record lobbyEntry =
  lplayerId :: pid
  lname :: string
  lcolor :: string
  lhat :: string

record statePlayer =
  splayerId :: pid
  sx :: int
  sscore :: int
  scolor :: string
  sname :: string
  shat :: string

record stateCoin =
  scid :: nat
  scx :: real
  scy :: real
  srotation :: real

record gameState =
  gsPlayers :: "statePlayer list"
  gsCoins :: "stateCoin list"
  gsTimeLeft :: real
  collected :: "collectedEvent list option"

datatype msg =
    Lobby "lobbyEntry list" int
  | Countdown int
  | GameStateMsg gameState
  | GameOver "rankedPlayer list"
  | Waiting
  | NameRejected

text \<open>
  What a handler does to the outside: \<open>SendTo\<close> is \<^verbatim>\<open>_sendTo\<close>, \<open>SendJoined\<close> the
  writes of \<^verbatim>\<open>_broadcastGameState\<close> to the listed roster and waiting-room
  connections, \<open>SendAll\<close> is \<^verbatim>\<open>_broadcastAll\<close>, \<open>SetAlarm d\<close> is
  \<^verbatim>\<open>setAlarm(Date.now() + d)\<close>, and \<open>AwardCoins\<close> is the call of \<^verbatim>\<open>awardCoins\<close>
  (the database binding \<^verbatim>\<open>env.DB\<close> is taken to be configured).
\<close>

datatype effect =
    SendTo pid msg
  | SendJoined "pid list" msg
  | SendAll msg
  | SetAlarm int
  | AwardCoins "coinAward list"

subsection \<open>Broadcasting\<close>

text \<open>\<^verbatim>\<open>p.hat || 'cap'\<close>: the empty string is falsy.\<close>

definition hatOrCap :: "string \<Rightarrow> string" where
  "hatOrCap h = (if h = [] then ''cap'' else h)"

text \<open>\<^verbatim>\<open>userId || null\<close>, and the test \<^verbatim>\<open>if (p.userId)\<close>: the empty string is falsy.\<close>

definition orNull :: "string option \<Rightarrow> string option" where
  "orNull u = (case u of None \<Rightarrow> None | Some v \<Rightarrow> (if v = [] then None else Some v))"

text \<open>\<^verbatim>\<open>Math.round\<close> rounds half up.\<close>

definition jsRound :: "real \<Rightarrow> int" where
  "jsRound x = \<lfloor>x + 1 / 2\<rfloor>"

definition broadcastLobbyMsg :: "room \<Rightarrow> effect" where
  "broadcastLobbyMsg s =
     SendAll (Lobby
       (map (\<lambda>(i, p). \<lparr>lplayerId = i, lname = name p, lcolor = color p, lhat = hatOrCap (hat p)\<rparr>)
            (players s))
       LOBBY_IDLE_TIMEOUT)"

text \<open>
  \<^verbatim>\<open>_broadcastGameState(collected)\<close>. A connection whose \<^verbatim>\<open>send\<close> throws is deleted
  from its map; \<open>dead\<close> is the set of connections for which it throws.
\<close>

definition buildGameState :: "collectedEvent list \<Rightarrow> room \<Rightarrow> gameState" where
  "buildGameState col s =
     \<lparr>gsPlayers = map (\<lambda>(i, p). \<lparr>splayerId = i, sx = jsRound (px p), sscore = score p,
                                  scolor = color p, sname = name p, shat = hatOrCap (hat p)\<rparr>)
                      (players s),
      gsCoins = map (\<lambda>c. \<lparr>scid = cid c,
                           scx = real_of_int (jsRound (cx c * 10)) / 10,
                           scy = real_of_int (jsRound (cy c * 10)) / 10,
                           srotation = real_of_int (jsRound (rotation c * 100)) / 100\<rparr>)
                    (coins s),
      gsTimeLeft = real_of_int (jsRound (timeLeft s * 10)) / 10,
      collected = (if col \<noteq> [] then Some col else None)\<rparr>"

definition broadcastGameState :: "pid set \<Rightarrow> collectedEvent list \<Rightarrow> room \<Rightarrow> room \<times> effect list" where
  "broadcastGameState dead col s =
     (s\<lparr>players := filter (\<lambda>(i, p). i \<notin> dead) (players s),
        waitingRoom := filter (\<lambda>(i, w). i \<notin> dead) (waitingRoom s)\<rparr>,
      [SendJoined (map fst (players s) @ map fst (waitingRoom s))
                  (GameStateMsg (buildGameState col s))])"

subsection \<open>JavaScript \<^verbatim>\<open>Map\<close> operations on association lists\<close>

fun mapSet :: "'k \<Rightarrow> 'v \<Rightarrow> ('k \<times> 'v) list \<Rightarrow> ('k \<times> 'v) list" where
  "mapSet k v [] = [(k, v)]"
| "mapSet k v ((k', v') # m) = (if k = k' then (k, v) # m else (k', v') # mapSet k v m)"

definition mapHas :: "'k \<Rightarrow> ('k \<times> 'v) list \<Rightarrow> bool" where
  "mapHas k m \<longleftrightarrow> k \<in> set (map fst m)"

definition mapDelete :: "'k \<Rightarrow> ('k \<times> 'v) list \<Rightarrow> ('k \<times> 'v) list" where
  "mapDelete k m = filter (\<lambda>(k', v). k' \<noteq> k) m"

subsection \<open>Settlement: \<^verbatim>\<open>_endGame\<close>\<close>

text \<open>
  \<^verbatim>\<open>ranked.sort((a, b) => b.score - a.score)\<close> is a stable sort by descending score;
  \<^const>\<open>sort_key\<close> is a stable insertion sort.
\<close>

definition rankPlayers :: "(pid \<times> player) list \<Rightarrow> rankedEntry list" where
  "rankPlayers ps =
     sort_key (\<lambda>r. - rscore r)
       (map (\<lambda>(i, p). \<lparr>rplayerId = i, rname = name p, rscore = score p, rcolor = color p,
                        rhat = hat p, ruserId = userId p\<rparr>) ps)"

text \<open>The loop \<^verbatim>\<open>for (let i = 0; i < ranked.length; i++)\<close>, from index \<open>i\<close> on.\<close>

fun computeAwards :: "nat \<Rightarrow> rankedEntry list \<Rightarrow> rankedPlayer list" where
  "computeAwards i [] = []"
| "computeAwards i (p # ps) =
     (let isWinner = (i = 0 \<and> rscore p > 0);
          coinsFromScore = rscore p;
          bonus = (if isWinner then 50 else 0);
          participation = 25;
          coinsEarned = coinsFromScore + bonus + participation
      in rankedEntry.extend p (rankedPlayer.fields coinsEarned isWinner)
         # computeAwards (i + 1) ps)"

definition coinAwards :: "rankedPlayer list \<Rightarrow> coinAward list" where
  "coinAwards rs =
     concat (map (\<lambda>r. case orNull (ruserId r) of
                         None \<Rightarrow> []
                       | Some u \<Rightarrow> [\<lparr>auserId = u, acoinsEarned = coinsEarned r,
                                      aisWinner = isWinner r, aname = rname r\<rparr>]) rs)"

definition endGame :: "room \<Rightarrow> room \<times> effect list" where
  "endGame s =
     (let ranked = computeAwards 0 (rankPlayers (players s));
          awards = coinAwards ranked
      in (s\<lparr>state := GAME_OVER\<rparr>,
          [SendAll (GameOver ranked)]
          @ map (\<lambda>(i, w). SendTo i (GameOver ranked)) (waitingRoom s)
          @ (if awards \<noteq> [] then [AwardCoins awards] else [])
          @ [SetAlarm (GAME_OVER_DISPLAY_SECONDS * 1000)]))"

subsection \<open>State transitions\<close>

definition startCountdown :: "room \<Rightarrow> room \<times> effect list" where
  "startCountdown s =
     (s\<lparr>state := COUNTDOWN, countdownSeconds := COUNTDOWN_SECONDS\<rparr>,
      [SendAll (Countdown COUNTDOWN_SECONDS), SetAlarm 1000])"

text \<open>The loop of \<^verbatim>\<open>_startPlaying\<close> over the roster, \<open>n\<close> being \<^verbatim>\<open>this.players.size\<close>.\<close>

fun placePlayers :: "nat \<Rightarrow> nat \<Rightarrow> (pid \<times> player) list \<Rightarrow> (pid \<times> player) list" where
  "placePlayers n i [] = []"
| "placePlayers n i ((k, p) # ps) =
     (k, p\<lparr>score := 0,
           px := (CANVAS_WIDTH / (real n + 1)) * (real i + 1) - PLAYER_WIDTH / 2\<rparr>)
     # placePlayers n (i + 1) ps"

definition startPlaying :: "int \<Rightarrow> room \<Rightarrow> room \<times> effect list" where
  "startPlaying now s =
     (s\<lparr>state := PLAYING, timeLeft := GAME_DURATION, coins := [], nextCoinId := 1,
        coinSpawnAccumulator := 0, lastPhysicsTime := now, lastBroadcastTime := 0,
        pendingCollected := [],
        players := placePlayers (length (players s)) 0 (players s)\<rparr>,
      [SetAlarm FALLBACK_ALARM_MS])"

definition lobbyX :: real where
  "lobbyX = CANVAS_WIDTH / 2 - PLAYER_WIDTH / 2"

definition colorAt :: "nat \<Rightarrow> string" where
  "colorAt index = PLAYER_COLORS ! (index mod length PLAYER_COLORS)"

text \<open>
  \<^verbatim>\<open>_returnToLobby\<close>: the first loop copies the surviving players (and breaks at
  \<^verbatim>\<open>MAX_PLAYERS\<close>), the second walks the waiting room.
\<close>

fun copyPlayers :: "(pid \<times> player) list \<Rightarrow> (pid \<times> player) list \<times> nat
    \<Rightarrow> (pid \<times> player) list \<times> nat" where
  "copyPlayers [] (allPlayers, index) = (allPlayers, index)"
| "copyPlayers ((i, p) # ps) (allPlayers, index) =
     (let allPlayers' = mapSet i (p\<lparr>color := colorAt index, score := 0, px := lobbyX\<rparr>) allPlayers;
          index' = index + 1
      in if index' \<ge> MAX_PLAYERS then (allPlayers', index')
         else copyPlayers ps (allPlayers', index'))"

definition promote :: "nat \<Rightarrow> waiter \<Rightarrow> player" where
  "promote index w =
     \<lparr>px = lobbyX, score = 0, color = colorAt index, name = wname w,
      hat = hatOrCap (what w), userId = orNull (wuserId w)\<rparr>"

fun promoteWaiters :: "(pid \<times> waiter) list
    \<Rightarrow> (pid \<times> player) list \<times> nat \<times> (pid \<times> waiter) list
    \<Rightarrow> (pid \<times> player) list \<times> nat \<times> (pid \<times> waiter) list" where
  "promoteWaiters [] acc = acc"
| "promoteWaiters ((i, w) # ws) (allPlayers, index, remainingWaiters) =
     (if index < MAX_PLAYERS
      then promoteWaiters ws (mapSet i (promote index w) allPlayers, index + 1, remainingWaiters)
      else promoteWaiters ws (allPlayers, index, mapSet i w remainingWaiters))"

definition returnToLobby :: "room \<Rightarrow> room \<times> effect list" where
  "returnToLobby s =
     (case copyPlayers (players s) ([], 0) of (kept, index) \<Rightarrow>
      case promoteWaiters (waitingRoom s) (kept, index, []) of
        (allPlayers, index', remainingWaiters) \<Rightarrow>
          (let s' = s\<lparr>state := LOBBY, coins := [], players := allPlayers,
                      waitingRoom := remainingWaiters\<rparr>
           in (s', broadcastLobbyMsg s'
                   # (if length (players s') > 0 then [SetAlarm (LOBBY_IDLE_TIMEOUT * 1000)]
                      else []))))"

subsection \<open>Names: \<^verbatim>\<open>sanitizeName\<close> and \<^verbatim>\<open>isNameClean\<close>\<close>

definition BLOCKED_WORDS :: "string list" where
  "BLOCKED_WORDS =
     [''fuck'', ''shit'', ''ass'', ''dick'', ''cock'', ''cunt'', ''bitch'', ''damn'',
      ''piss'', ''slut'', ''whore'', ''fag'', ''nig'', ''rape'', ''porn'', ''sex'',
      ''tit'', ''boob'', ''penis'', ''vagin'', ''anus'', ''jizz'', ''cum'', ''wank'',
      ''twat'', ''prick'', ''homo'', ''retard'']"

text \<open>The character class \<^verbatim>\<open>[a-zA-Z0-9 _-]\<close>.\<close>

definition allowedChar :: "char \<Rightarrow> bool" where
  "allowedChar c \<longleftrightarrow>
     c \<in> set ''abcdefghijklmnopqrstuvwxyzABCDEFGHIJKLMNOPQRSTUVWXYZ0123456789 _-''"

text \<open>
  \<^verbatim>\<open>trim\<close> is only ever applied to a string of allowed characters, where the space is
  the one whitespace character.
\<close>

definition trim :: "string \<Rightarrow> string" where
  "trim cs = rev (dropWhile (\<lambda>c. c = CHR '' '') (rev (dropWhile (\<lambda>c. c = CHR '' '') cs)))"

definition sanitizeName :: "string \<Rightarrow> string" where
  "sanitizeName nm = take 8 (trim (filter allowedChar nm))"

text \<open>
  \<^verbatim>\<open>toLowerCase\<close> on the ASCII letters, and the class \<^verbatim>\<open>[_\-\s]\<close> on ASCII
  (\<^verbatim>\<open>isNameClean\<close> is called on sanitized names only, which are ASCII).
\<close>

definition toLowerChar :: "char \<Rightarrow> char" where
  "toLowerChar c =
     (case map_of (zip ''ABCDEFGHIJKLMNOPQRSTUVWXYZ'' ''abcdefghijklmnopqrstuvwxyz'') c of
        Some l \<Rightarrow> l
      | None \<Rightarrow> c)"

definition separatorChar :: "char \<Rightarrow> bool" where
  "separatorChar c \<longleftrightarrow>
     c \<in> set [CHR ''_'', CHR ''-'', CHR '' '', CHR 0x09, CHR 0x0A, CHR 0x0B, CHR 0x0C, CHR 0x0D]"

fun startsWith :: "string \<Rightarrow> string \<Rightarrow> bool" where
  "startsWith s [] = True"
| "startsWith [] (w # ws) = False"
| "startsWith (c # cs) (w # ws) = (c = w \<and> startsWith cs ws)"

fun includesStr :: "string \<Rightarrow> string \<Rightarrow> bool" where
  "includesStr [] w = (w = [])"
| "includesStr (c # cs) w = (startsWith (c # cs) w \<or> includesStr cs w)"

definition isNameClean :: "string \<Rightarrow> bool" where
  "isNameClean nm =
     (let lower = filter (\<lambda>c. \<not> separatorChar c) (map toLowerChar nm)
      in \<not> list_ex (\<lambda>word. includesStr lower word) BLOCKED_WORDS)"

subsection \<open>Validation of the join payload\<close>

text \<open>\<^verbatim>\<open>isValidUUID\<close> of \<^verbatim>\<open>db.js\<close>: groups of 8, 4, 4, 4 and 12 hex digits.\<close>

definition isHex :: "char \<Rightarrow> bool" where
  "isHex c \<longleftrightarrow> c \<in> set ''0123456789abcdefABCDEF''"

fun hexRun :: "nat \<Rightarrow> string \<Rightarrow> string option" where
  "hexRun 0 cs = Some cs"
| "hexRun (Suc n) [] = None"
| "hexRun (Suc n) (c # cs) = (if isHex c then hexRun n cs else None)"

fun uuidGroups :: "nat list \<Rightarrow> string \<Rightarrow> bool" where
  "uuidGroups [] cs = False"
| "uuidGroups [n] cs = (hexRun n cs = Some [])"
| "uuidGroups (n # m # ns) cs =
     (case hexRun n cs of
        Some (c # rest) \<Rightarrow> c = CHR ''-'' \<and> uuidGroups (m # ns) rest
      | _ \<Rightarrow> False)"

definition isValidUUID :: "string \<Rightarrow> bool" where
  "isValidUUID u = uuidGroups [8, 4, 4, 4, 12] u"

text \<open>
  The keys of \<^verbatim>\<open>HAT_CATALOG\<close> (\<^verbatim>\<open>hat-catalog.js\<close>). The lookup
  \<^verbatim>\<open>HAT_CATALOG[data.hat]\<close> is on a plain object, so it is also truthy for the
  names inherited from \<^verbatim>\<open>Object.prototype\<close>.
\<close>

definition HAT_CATALOG :: "string list" where
  "HAT_CATALOG =
     [''cap'', ''beanie'', ''headband'', ''baseball'', ''party'', ''beret'', ''cowboy'',
      ''tophat'', ''chef'', ''wizard'', ''pirate'', ''viking'', ''crown'', ''astronaut'',
      ''halo'']"

definition objectPrototypeKeys :: "string list" where
  "objectPrototypeKeys =
     [''constructor'', ''toString'', ''toLocaleString'', ''valueOf'', ''hasOwnProperty'',
      ''isPrototypeOf'', ''propertyIsEnumerable'', ''__proto__'', ''__defineGetter__'',
      ''__defineSetter__'', ''__lookupGetter__'', ''__lookupSetter__'']"

definition validHat :: "string option \<Rightarrow> string" where
  "validHat h =
     (case h of
        None \<Rightarrow> ''cap''
      | Some v \<Rightarrow> (if v \<in> set HAT_CATALOG \<or> v \<in> set objectPrototypeKeys then v else ''cap''))"

definition validUserId :: "string option \<Rightarrow> string option" where
  "validUserId u =
     (case u of None \<Rightarrow> None | Some v \<Rightarrow> (if isValidUUID v then Some v else None))"

subsection \<open>Player management\<close>

definition addToWaitingRoom :: "pid \<Rightarrow> string \<Rightarrow> string \<Rightarrow> string option \<Rightarrow> room
    \<Rightarrow> room \<times> effect list" where
  "addToWaitingRoom i nm h u s =
     (let colorIndex = length (waitingRoom s) mod length PLAYER_COLORS
      in (s\<lparr>waitingRoom :=
               mapSet i \<lparr>wcolor = PLAYER_COLORS ! colorIndex, wname = nm, what = h, wuserId = u\<rparr>
                 (waitingRoom s)\<rparr>,
          [SendTo i Waiting]))"

definition addPlayerToLobby :: "pid \<Rightarrow> string \<Rightarrow> string \<Rightarrow> string option \<Rightarrow> room
    \<Rightarrow> room \<times> effect list" where
  "addPlayerToLobby i nm h u s =
     (if length (players s) \<ge> MAX_PLAYERS then addToWaitingRoom i nm h u s
      else
        (let colorIndex = length (players s) mod length PLAYER_COLORS;
             s1 = s\<lparr>players :=
                      mapSet i \<lparr>px = CANVAS_WIDTH / 2 - PLAYER_WIDTH / 2, score = 0,
                                color = PLAYER_COLORS ! colorIndex, name = nm, hat = h,
                                userId = u\<rparr> (players s)\<rparr>;
             e1 = [broadcastLobbyMsg s1]
                  @ (if length (players s1) = 1 then [SetAlarm (LOBBY_IDLE_TIMEOUT * 1000)]
                     else [])
         in if length (players s1) \<ge> MAX_PLAYERS
            then (case startCountdown s1 of (s2, e2) \<Rightarrow> (s2, e1 @ e2))
            else (s1, e1)))"

subsection \<open>Handlers\<close>

text \<open>
  The value of \<^verbatim>\<open>data.name\<close>, as far as \<^verbatim>\<open>String(data.name || '')\<close> looks at it.
  \<open>JUndefined\<close> is a missing field; \<open>JZero\<close> is the number 0; \<open>JOther r\<close> is any other
  value (a non-zero number, an array, an object), all of them truthy, \<open>r\<close> being the string
  \<^verbatim>\<open>String\<close> makes of it: 123 gives \<^verbatim>\<open>123\<close>, a plain object gives
  \<^verbatim>\<open>[object Object]\<close>.
\<close>

datatype jsValue = JUndefined | JNull | JBool bool | JZero | JString string | JOther string

text \<open>\<^verbatim>\<open>String(v || '')\<close>: a falsy value is replaced by the empty string.\<close>

definition nameString :: "jsValue \<Rightarrow> string" where
  "nameString v =
     (case v of
        JUndefined \<Rightarrow> []
      | JNull \<Rightarrow> []
      | JBool b \<Rightarrow> (if b then ''true'' else [])
      | JZero \<Rightarrow> []
      | JString t \<Rightarrow> t
      | JOther r \<Rightarrow> r)"

text \<open>
  The two statements
  \<^verbatim>\<open>let name = sanitizeName(String(data.name || '')); if (!name) name = 'Player';\<close>
\<close>

definition displayName :: "jsValue \<Rightarrow> string" where
  "displayName nameValue =
     (let nm0 = sanitizeName (nameString nameValue)
      in if nm0 = [] then ''Player'' else nm0)"

text \<open>
  The \<^verbatim>\<open>join\<close> case of the \<^verbatim>\<open>switch\<close> in \<^verbatim>\<open>webSocketMessage\<close>. \<open>nameValue\<close>
  is \<^verbatim>\<open>data.name\<close>; \<open>rawUserId\<close> and \<open>rawHat\<close> are \<open>None\<close> when the field is not a
  string.
\<close>

definition joinCase :: "pid \<Rightarrow> jsValue \<Rightarrow> string option \<Rightarrow> string option \<Rightarrow> room
    \<Rightarrow> room \<times> effect list" where
  "joinCase i nameValue rawUserId rawHat s =
     (if mapHas i (players s) \<or> mapHas i (waitingRoom s) then (s, [])
      else
        (let nm = displayName nameValue
         in if \<not> isNameClean nm then (s, [SendTo i NameRejected])
            else
              (let u = validUserId rawUserId;
                   h = validHat rawHat
               in if state s = LOBBY then addPlayerToLobby i nm h u s
                  else addToWaitingRoom i nm h u s)))"

text \<open>\<^verbatim>\<open>this.players.get(playerId).x = ...\<close>\<close>

definition setX :: "pid \<Rightarrow> real \<Rightarrow> (pid \<times> player) list \<Rightarrow> (pid \<times> player) list" where
  "setX i x ps = map (\<lambda>(k, p). if k = i then (k, p\<lparr>px := x\<rparr>) else (k, p)) ps"

definition clampX :: "real \<Rightarrow> real" where
  "clampX x = max 0 (min (CANVAS_WIDTH - PLAYER_WIDTH) x)"

text \<open>The step size both triggers compute from \<^verbatim>\<open>Date.now()\<close>.\<close>

definition stepDt :: "int \<Rightarrow> room \<Rightarrow> real" where
  "stepDt now s = min (real_of_int (now - lastPhysicsTime s) / 1000) MAX_PHYSICS_DT"

text \<open>
  The path of a \<^verbatim>\<open>move\<close> message through \<^verbatim>\<open>webSocketMessage\<close>. \<open>x\<close> is
  \<^verbatim>\<open>Number(data.x)\<close>, \<open>None\<close> standing for \<^verbatim>\<open>NaN\<close>; \<open>now\<close> is \<^verbatim>\<open>Date.now()\<close>.
  Outside \<open>PLAYING\<close> the message falls through to the \<^verbatim>\<open>switch\<close>, whose \<^verbatim>\<open>move\<close>
  case does nothing then.
\<close>

definition movePath :: "pid \<Rightarrow> real option \<Rightarrow> int \<Rightarrow> (nat \<Rightarrow> real) \<Rightarrow> pid set \<Rightarrow> room
    \<Rightarrow> room \<times> effect list" where
  "movePath i x now rnd dead s =
     (if state s = PLAYING \<and> mapHas i (players s) then
        (case x of
           None \<Rightarrow> (s, [])
         | Some v \<Rightarrow>
             (let s1 = s\<lparr>players := setX i (clampX v) (players s)\<rparr>;
                  dt = stepDt now s1
              in case advancePhysics rnd dt s1 of (s2, caught) \<Rightarrow>
                (let s3 = s2\<lparr>lastPhysicsTime := now\<rparr>;
                     s4 = (if length caught > 0
                           then s3\<lparr>pendingCollected := pendingCollected s3 @ caught\<rparr>
                           else s3)
                 in if timeLeft s4 \<le> 0 then endGame (s4\<lparr>timeLeft := 0\<rparr>)
                    else if now - lastBroadcastTime s4 \<ge> BROADCAST_THROTTLE_MS then
                      (case broadcastGameState dead (pendingCollected s4) s4 of (s5, e) \<Rightarrow>
                         (s5\<lparr>pendingCollected := [], lastBroadcastTime := now\<rparr>, e))
                    else (s4, []))))
      else (s, []))"

text \<open>
  \<^verbatim>\<open>webSocketMessage\<close> for the two kinds of message. \<open>len\<close> is \<^verbatim>\<open>message.length\<close>:
  the first statement drops a frame of more than 512 characters before it is parsed.
  (A binary frame, a frame that is not JSON and a frame of another type change nothing
  either; they are no events of the model.)
\<close>

definition handleJoin :: "nat \<Rightarrow> pid \<Rightarrow> jsValue \<Rightarrow> string option \<Rightarrow> string option \<Rightarrow> room
    \<Rightarrow> room \<times> effect list" where
  "handleJoin len i nameValue rawUserId rawHat s =
     (if len > 512 then (s, []) else joinCase i nameValue rawUserId rawHat s)"

definition handleMove :: "nat \<Rightarrow> pid \<Rightarrow> real option \<Rightarrow> int \<Rightarrow> (nat \<Rightarrow> real) \<Rightarrow> pid set \<Rightarrow> room
    \<Rightarrow> room \<times> effect list" where
  "handleMove len i x now rnd dead s =
     (if len > 512 then (s, []) else movePath i x now rnd dead s)"

definition handleClose :: "pid \<Rightarrow> room \<Rightarrow> room \<times> effect list" where
  "handleClose i s =
     (let s1 = s\<lparr>players := mapDelete i (players s),
                 waitingRoom := mapDelete i (waitingRoom s)\<rparr>;
          e1 = (if state s1 = LOBBY then [broadcastLobbyMsg s1] else [])
      in if length (players s1) = 0 \<and> state s1 \<noteq> LOBBY
         then (case returnToLobby s1 of (s2, e2) \<Rightarrow> (s2, e1 @ e2))
         else (s1, e1))"

definition handleAlarm :: "int \<Rightarrow> (nat \<Rightarrow> real) \<Rightarrow> pid set \<Rightarrow> room \<Rightarrow> room \<times> effect list" where
  "handleAlarm now rnd dead s =
     (case state s of
        LOBBY \<Rightarrow> (if length (players s) > 0 then startCountdown s else (s, []))
      | COUNTDOWN \<Rightarrow>
          (let s1 = s\<lparr>countdownSeconds := countdownSeconds s - 1\<rparr>
           in if countdownSeconds s1 \<le> 0 then startPlaying now s1
              else (s1, [SendAll (Countdown (countdownSeconds s1)), SetAlarm 1000]))
      | PLAYING \<Rightarrow>
          (if length (players s) = 0 then returnToLobby s
           else
             (let dt = stepDt now s
              in case advancePhysics rnd dt s of (s2, caught) \<Rightarrow>
                (let s3 = s2\<lparr>lastPhysicsTime := now\<rparr>;
                     s4 = (if length caught > 0
                           then s3\<lparr>pendingCollected := pendingCollected s3 @ caught\<rparr>
                           else s3)
                 in if timeLeft s4 \<le> 0 then endGame (s4\<lparr>timeLeft := 0\<rparr>)
                    else
                      (case broadcastGameState dead (pendingCollected s4) s4 of (s5, e) \<Rightarrow>
                         (s5\<lparr>pendingCollected := [], lastBroadcastTime := now\<rparr>,
                          e @ [SetAlarm FALLBACK_ALARM_MS])))))
      | GAME_OVER \<Rightarrow> returnToLobby s)"

subsection \<open>The room as a transition system\<close>

text \<open>
  An event is a text frame that parses as a \<^verbatim>\<open>join\<close> or a \<^verbatim>\<open>move\<close> message (with
  its length and the id of its connection), the close of a connection, or the alarm.
\<close>

datatype event =
    Join nat pid jsValue "string option" "string option"
  | Move nat pid "real option" int "nat \<Rightarrow> real" "pid set"
  | Close pid
  | Alarm int "nat \<Rightarrow> real" "pid set"

fun handle :: "event \<Rightarrow> room \<Rightarrow> room \<times> effect list" where
  "handle (Join len i nameValue rawUserId rawHat) s = handleJoin len i nameValue rawUserId rawHat s"
| "handle (Move len i x now rnd dead) s = handleMove len i x now rnd dead s"
| "handle (Close i) s = handleClose i s"
| "handle (Alarm now rnd dead) s = handleAlarm now rnd dead s"

text \<open>The state the constructor builds.\<close>

definition initialRoom :: room where
  "initialRoom =
     \<lparr>state = LOBBY, players = [], waitingRoom = [], coins = [], nextCoinId = 1,
      timeLeft = GAME_DURATION, countdownSeconds = COUNTDOWN_SECONDS,
      coinSpawnAccumulator = 0, lastPhysicsTime = 0, lastBroadcastTime = 0,
      pendingCollected = []\<rparr>"

inductive reachable :: "room \<Rightarrow> bool" where
  init: "reachable initialRoom"
| step: "reachable s \<Longrightarrow> reachable (fst (handle e s))"

text \<open>Running a list of events, collecting the effects.\<close>

fun run :: "event list \<Rightarrow> room \<Rightarrow> room \<times> effect list" where
  "run [] s = (s, [])"
| "run (e # es) s =
     (case handle e s of (s', out) \<Rightarrow>
        (case run es s' of (s'', out') \<Rightarrow> (s'', out @ out')))"

subsection \<open>Concrete rooms\<close>

definition mkPlayer :: "real \<Rightarrow> int \<Rightarrow> string \<Rightarrow> player" where
  "mkPlayer x sc nm =
     \<lparr>px = x, score = sc, color = ''#e74c3c'', name = nm, hat = ''cap'', userId = None\<rparr>"

definition settlementRoom :: room where
  "settlementRoom =
     initialRoom\<lparr>state := PLAYING, timeLeft := 0,
       players := [(1, mkPlayer 0 10 ''Ann''), (2, mkPlayer 100 30 ''Bob''),
                   (3, mkPlayer 200 0 ''Cy'')]\<rparr>"

definition noRandom :: "nat \<Rightarrow> real" where
  "noRandom k = 0"

text \<open>
  A coin that the next step of 0.2 s moves to \<open>y = 505\<close>, below the ground line at 500 but
  not yet 16 below it; its wobble phase is \<open>4\<pi>\<close> there, so it keeps its \<open>x\<close>.
\<close>

definition lowCoin :: coin where
  "lowCoin =
     \<lparr>cid = 7, cx = 130, cy = 485, speed = 100, radius = 16, rotation = 0,
      rotationSpeed = 3, wobbleOffset = 4 * pi - 101 / 10, wobbleAmount = 1 / 2\<rparr>"

text \<open>A coin that the next step of 0.2 s moves to \<open>y = 520\<close>.\<close>

definition deepCoin :: coin where
  "deepCoin =
     \<lparr>cid = 8, cx = 130, cy = 500, speed = 100, radius = 16, rotation = 0,
      rotationSpeed = 3, wobbleOffset = 1, wobbleAmount = 1 / 2\<rparr>"

definition catchRoster :: "(pid \<times> player) list" where
  "catchRoster = [(4, mkPlayer 100 0 ''Ann''), (5, mkPlayer 110 0 ''Bob'')]"

definition catchRoom :: room where
  "catchRoom =
     initialRoom\<lparr>state := PLAYING, timeLeft := 30, coins := [lowCoin],
       players := catchRoster, lastPhysicsTime := 1000, lastBroadcastTime := 1000\<rparr>"

text \<open>A round with a tenth of a second left.\<close>

definition lateRoom :: room where
  "lateRoom = initialRoom\<lparr>state := PLAYING, timeLeft := 1 / 10, players := catchRoster,
      lastPhysicsTime := 1000, lastBroadcastTime := 1000\<rparr>"

text \<open>Five connections join the fresh room one after the other.\<close>

definition fiveJoins :: "event list" where
  "fiveJoins =
     [Join 40 11 (JString ''Ann'') None None, Join 40 12 (JString ''Bob'') None None,
      Join 40 13 (JString ''Cy'') None None, Join 40 14 (JString ''Dee'') None None,
      Join 40 15 (JString ''Eve'') None None]"

definition fullRoom :: room where
  "fullRoom = fst (run fiveJoins initialRoom)"

definition lobbyPlayer :: "string \<Rightarrow> string \<Rightarrow> player" where
  "lobbyPlayer c nm = \<lparr>px = 450, score = 0, color = c, name = nm, hat = ''cap'', userId = None\<rparr>"

definition mkWaiter :: "string \<Rightarrow> waiter" where
  "mkWaiter nm = \<lparr>wcolor = ''#e74c3c'', wname = nm, what = ''cap'', wuserId = None\<rparr>"

text \<open>A round in which the only active player is about to leave while one connection waits.\<close>

definition leaverRoom :: room where
  "leaverRoom = initialRoom\<lparr>state := PLAYING, timeLeft := 30,
      players := [(4, mkPlayer 100 20 ''Ann'')], waitingRoom := [(6, mkWaiter ''Zoe'')],
      lastPhysicsTime := 1000, lastBroadcastTime := 1000\<rparr>"

text \<open>
  The same round with two waiting connections, and the room after a fallback alarm in
  which the send to the only active player fails.
\<close>

definition queueRoom :: room where
  "queueRoom = leaverRoom\<lparr>waitingRoom := [(6, mkWaiter ''Zoe''), (7, mkWaiter ''Yan'')]\<rparr>"

definition strandedRoom :: room where
  "strandedRoom = fst (handle (Alarm 1200 noRandom {4}) queueRoom)"

text \<open>A finished round with four players and three waiting connections.\<close>

definition overRoom :: room where
  "overRoom = initialRoom\<lparr>state := GAME_OVER, timeLeft := 0,
      players := [(11, mkPlayer 100 20 ''Ann''), (12, mkPlayer 200 0 ''Bob''),
                  (13, mkPlayer 300 10 ''Cy''), (14, mkPlayer 400 0 ''Dee'')],
      waitingRoom := [(21, mkWaiter ''Zoe''), (22, mkWaiter ''Yan''), (23, mkWaiter ''Xi'')]\<rparr>"

subsection \<open>Observing the broadcasts\<close>

text \<open>
  Three functions read a list of effects: the \<^verbatim>\<open>gameState\<close> payload an effect carries,
  the payloads of a whole list in the order sent, and the events of their
  \<^verbatim>\<open>collected\<close> fields. They are used to state what clients are sent.
\<close>

fun gameStateOf :: "effect \<Rightarrow> gameState option" where
  "gameStateOf (SendJoined recipients (GameStateMsg g)) = Some g"
| "gameStateOf (SendTo i (GameStateMsg g)) = Some g"
| "gameStateOf (SendAll (GameStateMsg g)) = Some g"
| "gameStateOf e = None"

fun gameStates :: "effect list \<Rightarrow> gameState list" where
  "gameStates [] = []"
| "gameStates (e # es) =
     (case gameStateOf e of Some g \<Rightarrow> g # gameStates es | None \<Rightarrow> gameStates es)"

definition broadcastEvents :: "effect list \<Rightarrow> collectedEvent list" where
  "broadcastEvents out =
     concat (map (\<lambda>g. case collected g of None \<Rightarrow> [] | Some evs \<Rightarrow> evs) (gameStates out))"

text \<open>
  The events the physics step of a handler call returns (the array \<^verbatim>\<open>collected\<close> of
  \<^verbatim>\<open>webSocketMessage\<close> and of \<^verbatim>\<open>alarm\<close>; empty when the call takes no step), and
  the events of all the steps of a run.
\<close>

fun caughtIn :: "event \<Rightarrow> room \<Rightarrow> collectedEvent list" where
  "caughtIn (Move len i (Some v) now rnd dead) s =
     (if len \<le> 512 \<and> state s = PLAYING \<and> mapHas i (players s)
      then (let s1 = s\<lparr>players := setX i (clampX v) (players s)\<rparr>
            in snd (advancePhysics rnd (stepDt now s1) s1))
      else [])"
| "caughtIn (Alarm now rnd dead) s =
     (if state s = PLAYING \<and> players s \<noteq> [] then snd (advancePhysics rnd (stepDt now s) s)
      else [])"
| "caughtIn e s = []"

fun caughtDuring :: "event list \<Rightarrow> room \<Rightarrow> collectedEvent list" where
  "caughtDuring [] s = []"
| "caughtDuring (e # es) s = caughtIn e s @ caughtDuring es (fst (handle e s))"

text \<open>
  The handler call that runs \<^verbatim>\<open>_startPlaying\<close>: the alarm in \<open>COUNTDOWN\<close> whose
  decrement brings \<^verbatim>\<open>countdownSeconds\<close> to 0. A run without such a call stays within
  one round and the pause after it.
\<close>

fun startsRound :: "event \<Rightarrow> room \<Rightarrow> bool" where
  "startsRound (Alarm now rnd dead) s \<longleftrightarrow> state s = COUNTDOWN \<and> countdownSeconds s - 1 \<le> 0"
| "startsRound e s \<longleftrightarrow> False"

fun noRoundStart :: "event list \<Rightarrow> room \<Rightarrow> bool" where
  "noRoundStart [] s \<longleftrightarrow> True"
| "noRoundStart (e # es) s \<longleftrightarrow> \<not> startsRound e s \<and> noRoundStart es (fst (handle e s))"

text \<open>
  The handler calls that reach \<^verbatim>\<open>_broadcastGameState\<close>: a \<^verbatim>\<open>move\<close> of an active
  player with a numeric \<open>x\<close> at least \<^verbatim>\<open>BROADCAST_THROTTLE_MS\<close> after the last broadcast,
  or a fallback alarm with a non-empty roster, in \<open>PLAYING\<close>, when the step leaves
  \<^verbatim>\<open>timeLeft\<close> positive.
\<close>

fun flushes :: "event \<Rightarrow> room \<Rightarrow> bool" where
  "flushes (Move len i (Some v) now rnd dead) s \<longleftrightarrow>
     len \<le> 512 \<and> state s = PLAYING \<and> mapHas i (players s) \<and> timeLeft s - stepDt now s > 0
     \<and> now - lastBroadcastTime s \<ge> BROADCAST_THROTTLE_MS"
| "flushes (Alarm now rnd dead) s \<longleftrightarrow>
     state s = PLAYING \<and> players s \<noteq> [] \<and> timeLeft s - stepDt now s > 0"
| "flushes e s \<longleftrightarrow> False"

text \<open>
  A round without coins in which one event is pending, and a countdown, two seconds from
  its end, in which that event is still in the buffer.
\<close>

definition pendingRoom :: room where
  "pendingRoom = catchRoom\<lparr>coins := [], pendingCollected := [\<lparr>playerId = 5, ex = 140, ey = 470\<rparr>]\<rparr>"

definition countdownRoom :: room where
  "countdownRoom = pendingRoom\<lparr>state := COUNTDOWN, countdownSeconds := 2\<rparr>"

text \<open>
  \<open>catchRoom\<close> with a tenth of a second left: the next step catches the coin and ends
  the round. \<open>overState\<close> is the room after that step, and \<open>roundEnd\<close> the alarms that
  carry the room from the last step through \<open>GAME_OVER\<close>, \<open>LOBBY\<close> and the countdown
  into the next round.
\<close>

definition lastCatchRoom :: room where
  "lastCatchRoom = catchRoom\<lparr>timeLeft := 1 / 10\<rparr>"

definition overState :: room where
  "overState = catchRoom\<lparr>state := GAME_OVER, timeLeft := 0, coinSpawnAccumulator := 2 / 10, coins := [],
        players := [(4, mkPlayer 100 10 ''Ann''), (5, mkPlayer 110 0 ''Bob'')],
        lastPhysicsTime := 1200,
        pendingCollected := [\<lparr>playerId = 4, ex = 130, ey = 505\<rparr>]\<rparr>"

definition nextRound :: "event list" where
  "nextRound =
     [Alarm 6200 noRandom {}, Alarm 26200 noRandom {},
      Alarm 27200 noRandom {}, Alarm 28200 noRandom {}, Alarm 29200 noRandom {},
      Alarm 30200 noRandom {}, Alarm 31200 noRandom {}]"

definition roundEnd :: "event list" where
  "roundEnd = Alarm 1200 noRandom {} # nextRound"

text \<open>A coin high above the players; after the step its wobble phase is \<open>\<pi>\<close>.\<close>

definition highCoin :: coin where
  "highCoin =
     \<lparr>cid = 9, cx = 400, cy = 100, speed = 100, radius = 16, rotation = 0,
      rotationSpeed = 3, wobbleOffset = pi - 24 / 10, wobbleAmount = 1 / 2\<rparr>"

definition highRoom :: room where
  "highRoom = catchRoom\<lparr>coins := [highCoin]\<rparr>"

section \<open>Verified properties\<close>

subsection \<open>Physics: what the loops preserve\<close>


lemma spawnCoin_frame:
  "spawnCoin rnd k s = (k', s') \<Longrightarrow>
   players s' = players s \<and> timeLeft s' = timeLeft s \<and> state s' = state s
   \<and> waitingRoom s' = waitingRoom s \<and> lastPhysicsTime s' = lastPhysicsTime s
   \<and> lastBroadcastTime s' = lastBroadcastTime s \<and> pendingCollected s' = pendingCollected s
   \<and> countdownSeconds s' = countdownSeconds s"
  by (auto simp: spawnCoin_def split: if_splits)

lemma spawnLoop_frame:
  "players (spawnLoop rnd k s) = players s \<and> timeLeft (spawnLoop rnd k s) = timeLeft s
   \<and> state (spawnLoop rnd k s) = state s \<and> waitingRoom (spawnLoop rnd k s) = waitingRoom s
   \<and> lastPhysicsTime (spawnLoop rnd k s) = lastPhysicsTime s
   \<and> lastBroadcastTime (spawnLoop rnd k s) = lastBroadcastTime s
   \<and> pendingCollected (spawnLoop rnd k s) = pendingCollected s
   \<and> countdownSeconds (spawnLoop rnd k s) = countdownSeconds s"
proof (induction rnd k s rule: spawnLoop.induct)
  case (1 rnd k s)
  show ?case
  proof (cases "coinSpawnAccumulator s \<ge> COIN_SPAWN_INTERVAL")
    case False
    then show ?thesis by (subst (1 2 3 4 5 6 7 8) spawnLoop.simps) simp
  next
    case True
    obtain k' s' where sc: "spawnCoin rnd k (s\<lparr>coinSpawnAccumulator := coinSpawnAccumulator s - COIN_SPAWN_INTERVAL\<rparr>) = (k', s')"
      by (cases "spawnCoin rnd k (s\<lparr>coinSpawnAccumulator := coinSpawnAccumulator s - COIN_SPAWN_INTERVAL\<rparr>)")
    have eq: "spawnLoop rnd k s = spawnLoop rnd k' s'"
      using True sc by (subst spawnLoop.simps) simp
    from "1.IH" [OF True sc [symmetric]] spawnCoin_frame [OF sc]
    show ?thesis unfolding eq by simp
  qed
qed


lemma creditFirstHit_None:
  "creditFirstHit c ps = None \<longleftrightarrow> (\<forall>(i, p) \<in> set ps. \<not> hits c p)"
  by (induction ps) (auto split: option.splits if_splits)

lemma creditFirstHit_Some:
  "creditFirstHit c ps = Some (ps', w) \<Longrightarrow>
   \<exists>k < length ps. hits c (snd (ps ! k)) \<and> (\<forall>j < k. \<not> hits c (snd (ps ! j)))
      \<and> w = fst (ps ! k)
      \<and> ps' = ps[k := (fst (ps ! k), (snd (ps ! k))\<lparr>score := score (snd (ps ! k)) + 10\<rparr>)]"
proof (induction ps arbitrary: ps' w)
  case Nil
  then show ?case by simp
next
  case (Cons a ps)
  obtain i p where a: "a = (i, p)" by (cases a)
  show ?case
  proof (cases "hits c p")
    case True
    with Cons.prems a have "w = i" "ps' = (i, p\<lparr>score := score p + 10\<rparr>) # ps" by auto
    with True a show ?thesis by (intro exI [of _ 0]) simp
  next
    case False
    with Cons.prems a obtain qs where q: "creditFirstHit c ps = Some (qs, w)" "ps' = (i, p) # qs"
      by (auto split: option.splits)
    from Cons.IH [OF q(1)] obtain k where k: "k < length ps" "hits c (snd (ps ! k))"
      "\<forall>j < k. \<not> hits c (snd (ps ! j))" "w = fst (ps ! k)"
      "qs = ps[k := (fst (ps ! k), (snd (ps ! k))\<lparr>score := score (snd (ps ! k)) + 10\<rparr>)]"
      by blast
    have "\<forall>j < Suc k. \<not> hits c (snd ((a # ps) ! j))"
      using k(3) False a by (auto simp: less_Suc_eq_0_disj)
    with k q a show ?thesis by (intro exI [of _ "Suc k"]) simp
  qed
qed

lemma creditFirstHit_total:
  "creditFirstHit c ps = Some (ps', w) \<Longrightarrow>
   sum_list (map (\<lambda>(i, p). score p) ps') = sum_list (map (\<lambda>(i, p). score p) ps) + 10
   \<and> map fst ps' = map fst ps \<and> map (\<lambda>(i, p). px p) ps' = map (\<lambda>(i, p). px p) ps"
  by (induction ps arbitrary: ps' w) (auto split: option.splits if_splits)


lemma coinLoop_Cons:
  "coinLoop dt cs ps col = (cs1, ps1, col1) \<Longrightarrow>
   coinLoop dt (c # cs) ps col =
     (if pastGround (moveCoin dt c) then (cs1, ps1, col1)
      else (case creditFirstHit (moveCoin dt c) ps1 of
              Some (ps2, w) \<Rightarrow>
                (cs1, ps2, col1 @ [\<lparr>playerId = w, ex = cx (moveCoin dt c), ey = cy (moveCoin dt c)\<rparr>])
            | None \<Rightarrow> (moveCoin dt c # cs1, ps1, col1)))"
  by (simp add: Let_def)

lemma creditFirstHit_winner:
  "creditFirstHit c ps = Some (ps', w) \<Longrightarrow> w \<in> fst ` set ps"
  by (induction ps arbitrary: ps' w) (auto split: option.splits if_splits)

lemma coinLoop_accounting:
  "coinLoop dt cs ps col = (cs', ps', col') \<Longrightarrow>
   map fst ps' = map fst ps
   \<and> map (\<lambda>(i, p). px p) ps' = map (\<lambda>(i, p). px p) ps
   \<and> (\<exists>new. col' = col @ new
        \<and> sum_list (map (\<lambda>(i, p). score p) ps')
            = sum_list (map (\<lambda>(i, p). score p) ps) + 10 * int (length new)
        \<and> length cs' + length new + length (filter (\<lambda>c. pastGround (moveCoin dt c)) cs) = length cs
        \<and> playerId ` set new \<subseteq> fst ` set ps)"
proof (induction cs arbitrary: cs' ps' col')
  case Nil
  then show ?case by simp
next
  case (Cons c cs)
  obtain cs1 ps1 col1 where r: "coinLoop dt cs ps col = (cs1, ps1, col1)"
    by (cases "coinLoop dt cs ps col") auto
  from Cons.IH [OF r] obtain new where ih:
    "map fst ps1 = map fst ps" "map (\<lambda>(i, p). px p) ps1 = map (\<lambda>(i, p). px p) ps"
    "col1 = col @ new"
    "sum_list (map (\<lambda>(i, p). score p) ps1) = sum_list (map (\<lambda>(i, p). score p) ps) + 10 * int (length new)"
    "length cs1 + length new + length (filter (\<lambda>c. pastGround (moveCoin dt c)) cs) = length cs"
    "playerId ` set new \<subseteq> fst ` set ps"
    by blast
  note step = Cons.prems [unfolded coinLoop_Cons [OF r]]
  show ?case
  proof (cases "pastGround (moveCoin dt c)")
    case True
    with step have res: "cs' = cs1" "ps' = ps1" "col' = col1" by simp_all
    show ?thesis
      unfolding res using ih True by (intro conjI exI [of _ new]) simp_all
  next
    case False
    show ?thesis
    proof (cases "creditFirstHit (moveCoin dt c) ps1")
      case None
      with step False have res: "cs' = moveCoin dt c # cs1" "ps' = ps1" "col' = col1"
        by simp_all
      show ?thesis
        unfolding res using ih False by (intro conjI exI [of _ new]) simp_all
    next
      case (Some a)
      obtain ps2 w where a: "a = (ps2, w)" by (cases a)
      let ?e = "\<lparr>playerId = w, ex = cx (moveCoin dt c), ey = cy (moveCoin dt c)\<rparr>"
      from Some a step False have res: "cs' = cs1" "ps' = ps2" "col' = col1 @ [?e]"
        by simp_all
      from creditFirstHit_total [OF Some [unfolded a]] have t:
        "sum_list (map (\<lambda>(i, p). score p) ps2) = sum_list (map (\<lambda>(i, p). score p) ps1) + 10"
        "map fst ps2 = map fst ps1" "map (\<lambda>(i, p). px p) ps2 = map (\<lambda>(i, p). px p) ps1"
        by simp_all
      from creditFirstHit_winner [OF Some [unfolded a]] have "w \<in> set (map fst ps1)" by simp
      then have w: "w \<in> fst ` set ps" unfolding ih(1) by simp
      show ?thesis
        unfolding res using ih t False w
        by (intro conjI exI [of _ "new @ [?e]"]) simp_all
    qed
  qed
qed


lemma coinLoop_ground:
  "coinLoop dt cs ps col = coinLoop dt (filter (\<lambda>c. \<not> pastGround (moveCoin dt c)) cs) ps col"
proof (induction cs)
  case Nil
  show ?case by simp
next
  case (Cons c cs)
  obtain cs1 ps1 col1 where r: "coinLoop dt cs ps col = (cs1, ps1, col1)"
    by (cases "coinLoop dt cs ps col") auto
  show ?case
  proof (cases "pastGround (moveCoin dt c)")
    case True
    then show ?thesis using Cons.IH r by (simp add: coinLoop_Cons [OF r] del: coinLoop.simps)
  next
    case False
    from r Cons.IH
    have r': "coinLoop dt (filter (\<lambda>c. \<not> pastGround (moveCoin dt c)) cs) ps col = (cs1, ps1, col1)"
      by simp
    from False show ?thesis
      by (simp add: coinLoop_Cons [OF r] coinLoop_Cons [OF r'] del: coinLoop.simps)
  qed
qed

lemma coinLoop_remaining:
  "coinLoop dt cs ps col = (cs', ps', col') \<Longrightarrow> \<forall>c' \<in> set cs'. \<not> pastGround c'"
proof (induction cs arbitrary: cs' ps' col')
  case Nil
  then show ?case by simp
next
  case (Cons c cs)
  obtain cs1 ps1 col1 where r: "coinLoop dt cs ps col = (cs1, ps1, col1)"
    by (cases "coinLoop dt cs ps col") auto
  from Cons.IH [OF r] have ih: "\<forall>c' \<in> set cs1. \<not> pastGround c'" .
  note step = Cons.prems [unfolded coinLoop_Cons [OF r]]
  show ?case
  proof (cases "pastGround (moveCoin dt c)")
    case True
    with step have "cs' = cs1" by simp
    with ih show ?thesis by simp
  next
    case False
    show ?thesis
    proof (cases "creditFirstHit (moveCoin dt c) ps1")
      case None
      with step False have "cs' = moveCoin dt c # cs1" by simp
      with ih False show ?thesis by simp
    next
      case (Some a)
      with step False have "cs' = cs1" by (cases a) simp
      with ih show ?thesis by simp
    qed
  qed
qed

lemma spawnLoop_idle:
  "coinSpawnAccumulator s < COIN_SPAWN_INTERVAL \<Longrightarrow> spawnLoop rnd k s = s"
  by (subst spawnLoop.simps) simp

lemma spawnPhase_frame:
  "players (spawnPhase rnd dt s) = players s \<and> timeLeft (spawnPhase rnd dt s) = timeLeft s - dt
   \<and> state (spawnPhase rnd dt s) = state s \<and> waitingRoom (spawnPhase rnd dt s) = waitingRoom s
   \<and> lastPhysicsTime (spawnPhase rnd dt s) = lastPhysicsTime s
   \<and> lastBroadcastTime (spawnPhase rnd dt s) = lastBroadcastTime s
   \<and> pendingCollected (spawnPhase rnd dt s) = pendingCollected s
   \<and> countdownSeconds (spawnPhase rnd dt s) = countdownSeconds s"
  by (simp add: spawnPhase_def Let_def spawnLoop_frame)

lemma advancePhysics_unfold:
  "coinLoop dt (coins (spawnPhase rnd dt s)) (players s) [] = (cs, ps, caught) \<Longrightarrow>
   advancePhysics rnd dt s = ((spawnPhase rnd dt s)\<lparr>coins := cs, players := ps\<rparr>, caught)"
  by (simp add: advancePhysics_def Let_def spawnPhase_frame)

lemma advancePhysics_frame:
  "advancePhysics rnd dt s = (s', caught) \<Longrightarrow>
   timeLeft s' = timeLeft s - dt \<and> state s' = state s \<and> waitingRoom s' = waitingRoom s
   \<and> lastPhysicsTime s' = lastPhysicsTime s \<and> lastBroadcastTime s' = lastBroadcastTime s
   \<and> pendingCollected s' = pendingCollected s \<and> countdownSeconds s' = countdownSeconds s"
proof -
  assume a: "advancePhysics rnd dt s = (s', caught)"
  obtain cs ps col where r: "coinLoop dt (coins (spawnPhase rnd dt s)) (players s) [] = (cs, ps, col)"
    by (cases "coinLoop dt (coins (spawnPhase rnd dt s)) (players s) []") auto
  from a advancePhysics_unfold [OF r]
  have "s' = (spawnPhase rnd dt s)\<lparr>coins := cs, players := ps\<rparr>" by simp
  then show ?thesis by (simp add: spawnPhase_frame)
qed

subsection \<open>Settlement\<close>

lemma computeAwards_length: "length (computeAwards k rs) = length rs"
  by (induction rs arbitrary: k) (auto simp: Let_def)

lemma computeAwards_nth:
  "i < length rs \<Longrightarrow>
   coinsEarned (computeAwards k rs ! i)
     = rscore (rs ! i) + (if k + i = 0 \<and> rscore (rs ! i) > 0 then 50 else 0) + 25
   \<and> isWinner (computeAwards k rs ! i) = (k + i = 0 \<and> rscore (rs ! i) > 0)
   \<and> rscore (computeAwards k rs ! i) = rscore (rs ! i)"
proof (induction rs arbitrary: k i)
  case Nil
  then show ?case by simp
next
  case (Cons r rs)
  show ?case
  proof (cases i)
    case 0
    then show ?thesis
      by (simp add: Let_def rankedEntry.extend_def rankedPlayer.fields_def)
  next
    case (Suc j)
    with Cons.prems have "j < length rs" by simp
    from Cons.IH [OF this, of "k + 1"] Suc show ?thesis
      by (simp add: Let_def)
  qed
qed

lemma rankPlayers_length: "length (rankPlayers ps) = length ps"
  by (simp add: rankPlayers_def)

text \<open>
  Claim C4. \<^verbatim>\<open>_endGame\<close> moves the room to \<open>GAME_OVER\<close> and broadcasts the ranked
  players, ordered by descending score. The award of the player at rank \<open>i\<close> is its score,
  plus 50 exactly when \<open>i = 0\<close> and that score is positive, plus 25. When the ranked
  scores are 30, 10, 0 the awards are 105, 35, 25.
\<close>

theorem settlement_awards:
  "state (fst (endGame s)) = GAME_OVER
   \<and> SendAll (GameOver (computeAwards 0 (rankPlayers (players s)))) \<in> set (snd (endGame s))
   \<and> sorted (map (\<lambda>r. - rscore r) (rankPlayers (players s)))
   \<and> length (computeAwards 0 (rankPlayers (players s))) = length (players s)
   \<and> (\<forall>i < length (players s).
        coinsEarned (computeAwards 0 (rankPlayers (players s)) ! i)
          = rscore (rankPlayers (players s) ! i)
            + (if i = 0 \<and> rscore (rankPlayers (players s) ! i) > 0 then 50 else 0) + 25)
   \<and> (map rscore (rankPlayers (players s)) = [30, 10, 0] \<longrightarrow>
        map coinsEarned (computeAwards 0 (rankPlayers (players s))) = [105, 35, 25])"
proof -
  let ?rs = "rankPlayers (players s)"
  have a: "state (fst (endGame s)) = GAME_OVER"
    by (simp add: endGame_def Let_def)
  have b: "SendAll (GameOver (computeAwards 0 ?rs)) \<in> set (snd (endGame s))"
    by (simp add: endGame_def Let_def)
  have c: "sorted (map (\<lambda>r. - rscore r) ?rs)"
    by (simp add: rankPlayers_def)
  have d: "length (computeAwards 0 ?rs) = length (players s)"
    by (simp add: computeAwards_length rankPlayers_length)
  have e: "\<forall>i < length (players s).
        coinsEarned (computeAwards 0 ?rs ! i)
          = rscore (?rs ! i) + (if i = 0 \<and> rscore (?rs ! i) > 0 then 50 else 0) + 25"
    using computeAwards_nth [of _ ?rs 0] by (simp add: rankPlayers_length)
  have f: "map rscore ?rs = [30, 10, 0] \<longrightarrow>
           map coinsEarned (computeAwards 0 ?rs) = [105, 35, 25]"
  proof
    assume "map rscore ?rs = [30, 10, 0]"
    then obtain r0 r1 r2 where rs: "?rs = [r0, r1, r2]"
      and sc: "rscore r0 = 30" "rscore r1 = 10" "rscore r2 = 0"
      by (auto simp: map_eq_Cons_conv)
    show "map coinsEarned (computeAwards 0 ?rs) = [105, 35, 25]"
      unfolding rs using sc
      by (simp add: Let_def rankedEntry.extend_def rankedPlayer.fields_def)
  qed
  from a b c d e f show ?thesis by blast
qed

theorem settlement_awards_witness:
  "map rplayerId (rankPlayers (players settlementRoom)) = [2, 1, 3]
   \<and> map rscore (rankPlayers (players settlementRoom)) = [30, 10, 0]
   \<and> (0::nat) < length (players settlementRoom)
   \<and> map coinsEarned (computeAwards 0 (rankPlayers (players settlementRoom))) = [105, 35, 25]
   \<and> coinsEarned (computeAwards 0 (rankPlayers (players settlementRoom)) ! 0) = 105"
proof -
  have ids: "map rplayerId (rankPlayers (players settlementRoom)) = [2, 1, 3]"
    by (simp add: settlementRoom_def initialRoom_def mkPlayer_def rankPlayers_def)
  have sc: "map rscore (rankPlayers (players settlementRoom)) = [30, 10, 0]"
    by (simp add: settlementRoom_def initialRoom_def mkPlayer_def rankPlayers_def)
  have len: "(0::nat) < length (players settlementRoom)"
    by (simp add: settlementRoom_def initialRoom_def)
  from settlement_awards [of settlementRoom] sc
  have aw: "map coinsEarned (computeAwards 0 (rankPlayers (players settlementRoom))) = [105, 35, 25]"
    by blast
  from settlement_awards [of settlementRoom] len
  have "coinsEarned (computeAwards 0 (rankPlayers (players settlementRoom)) ! 0)
          = rscore (rankPlayers (players settlementRoom) ! 0)
            + (if (0::nat) = 0 \<and> rscore (rankPlayers (players settlementRoom) ! 0) > 0
               then 50 else 0) + 25"
    by blast
  moreover from sc have "rscore (rankPlayers (players settlementRoom) ! 0) = 30"
    by (metis nth_Cons_0 nth_map len rankPlayers_length)
  ultimately have "coinsEarned (computeAwards 0 (rankPlayers (players settlementRoom)) ! 0) = 105"
    by simp
  with ids sc len aw show ?thesis by blast
qed

subsection \<open>A concrete step\<close>

lemma lowCoin_moved:
  "moveCoin MAX_PHYSICS_DT lowCoin =
     \<lparr>cid = 7, cx = 130, cy = 505, speed = 100, radius = 16, rotation = 6 / 10,
      rotationSpeed = 3, wobbleOffset = 4 * pi - 101 / 10, wobbleAmount = 1 / 2\<rparr>"
  by (simp add: moveCoin_def lowCoin_def Let_def MAX_PHYSICS_DT_def)

lemma lowCoin_caught:
  "coinLoop MAX_PHYSICS_DT [lowCoin] catchRoster []
     = ([], [(4, mkPlayer 100 10 ''Ann''), (5, mkPlayer 110 0 ''Bob'')],
        [\<lparr>playerId = 4, ex = 130, ey = 505\<rparr>])"
  by (simp add: lowCoin_moved catchRoster_def hits_def pastGround_def geometry_defs
      mkPlayer_def Let_def)

lemma catchRoom_spawnPhase:
  "spawnPhase noRandom MAX_PHYSICS_DT catchRoom
     = catchRoom\<lparr>timeLeft := 298 / 10, coinSpawnAccumulator := 2 / 10\<rparr>"
  by (simp add: spawnPhase_def catchRoom_def initialRoom_def Let_def MAX_PHYSICS_DT_def
      spawnLoop_idle COIN_SPAWN_INTERVAL_def)

lemma catchRoom_step:
  "advancePhysics noRandom MAX_PHYSICS_DT catchRoom =
     (catchRoom\<lparr>timeLeft := 298 / 10, coinSpawnAccumulator := 2 / 10, coins := [],
        players := [(4, mkPlayer 100 10 ''Ann''), (5, mkPlayer 110 0 ''Bob'')]\<rparr>,
      [\<lparr>playerId = 4, ex = 130, ey = 505\<rparr>])"
proof -
  have "coinLoop MAX_PHYSICS_DT (coins (spawnPhase noRandom MAX_PHYSICS_DT catchRoom))
           (players catchRoom) []
        = ([], [(4, mkPlayer 100 10 ''Ann''), (5, mkPlayer 110 0 ''Bob'')],
           [\<lparr>playerId = 4, ex = 130, ey = 505\<rparr>])"
    unfolding catchRoom_spawnPhase
    by (simp add: catchRoom_def initialRoom_def lowCoin_caught del: coinLoop.simps)
  from advancePhysics_unfold [OF this] show ?thesis
    by (simp add: catchRoom_spawnPhase)
qed

subsection \<open>Ground removal\<close>

text \<open>
  Claim C8, as stated, fails: the claim removes every object whose Y exceeds the ground
  line. In \<open>catchRoom\<close> the step moves the coin to \<open>y = 505\<close>, past the ground line at 500;
  the coin is not dropped silently but caught: a score rises by 10 and an event is
  returned.
\<close>

theorem ground_line_counterexample:
  "cy (moveCoin MAX_PHYSICS_DT lowCoin) > GROUND_Y
   \<and> coins catchRoom = [lowCoin]
   \<and> map (score \<circ> snd) (players catchRoom) = [0, 0]
   \<and> map (score \<circ> snd)
        (players (fst (advancePhysics noRandom MAX_PHYSICS_DT catchRoom))) = [10, 0]
   \<and> snd (advancePhysics noRandom MAX_PHYSICS_DT catchRoom)
       = [\<lparr>playerId = 4, ex = 130, ey = 505\<rparr>]"
  unfolding catchRoom_step lowCoin_moved
  by (simp add: catchRoom_def catchRoster_def initialRoom_def mkPlayer_def geometry_defs)

text \<open>
  Claim C8, amended. The ground test is \<^verbatim>\<open>coin.y - COIN_RADIUS > GROUND_Y\<close>: a coin
  is past the ground when its updated Y exceeds the ground line by more than the coin
  radius. Such a coin is removed with no side effect: the loop treats a list that starts
  with it as it treats the rest of the list, the whole loop gives the result it gives on
  the list without these coins (same remaining coins, same scores, same events), and no
  coin past the ground is left after \<^verbatim>\<open>_advancePhysics\<close>.
\<close>

theorem ground_removal:
  "(pastGround c \<longleftrightarrow> cy c > GROUND_Y + COIN_RADIUS)
   \<and> (pastGround (moveCoin dt c) \<longrightarrow> coinLoop dt (c # cs) ps col = coinLoop dt cs ps col)
   \<and> coinLoop dt cs ps col
       = coinLoop dt (filter (\<lambda>c. \<not> pastGround (moveCoin dt c)) cs) ps col
   \<and> (\<forall>c' \<in> set (coins (fst (advancePhysics rnd dt s))). \<not> pastGround c')"
proof -
  have a: "pastGround c \<longleftrightarrow> cy c > GROUND_Y + COIN_RADIUS"
    by (auto simp: pastGround_def)
  have b: "pastGround (moveCoin dt c) \<longrightarrow> coinLoop dt (c # cs) ps col = coinLoop dt cs ps col"
    by (cases "coinLoop dt cs ps col") (simp add: Let_def)
  obtain cs' ps' col' where r:
    "coinLoop dt (coins (spawnPhase rnd dt s)) (players s) [] = (cs', ps', col')"
    by (cases "coinLoop dt (coins (spawnPhase rnd dt s)) (players s) []") auto
  from coinLoop_remaining [OF r] advancePhysics_unfold [OF r]
  have d: "\<forall>c' \<in> set (coins (fst (advancePhysics rnd dt s))). \<not> pastGround c'" by simp
  from a b coinLoop_ground [of dt cs ps col] d show ?thesis by blast
qed

lemma highCoin_moved:
  "moveCoin MAX_PHYSICS_DT highCoin =
     \<lparr>cid = 9, cx = 400, cy = 120, speed = 100, radius = 16, rotation = 6 / 10,
      rotationSpeed = 3, wobbleOffset = pi - 24 / 10, wobbleAmount = 1 / 2\<rparr>"
  by (simp add: moveCoin_def highCoin_def Let_def MAX_PHYSICS_DT_def)

lemma highCoin_kept:
  "coinLoop MAX_PHYSICS_DT [highCoin] catchRoster []
     = ([moveCoin MAX_PHYSICS_DT highCoin], catchRoster, [])"
  unfolding highCoin_moved
  by (simp add: highCoin_moved catchRoster_def hits_def pastGround_def geometry_defs
      mkPlayer_def Let_def)

lemma highRoom_coins:
  "coins (fst (advancePhysics noRandom MAX_PHYSICS_DT highRoom)) = [moveCoin MAX_PHYSICS_DT highCoin]"
proof -
  have sp: "spawnPhase noRandom MAX_PHYSICS_DT highRoom
     = highRoom\<lparr>timeLeft := 298 / 10, coinSpawnAccumulator := 2 / 10\<rparr>"
    by (simp add: spawnPhase_def highRoom_def catchRoom_def initialRoom_def Let_def MAX_PHYSICS_DT_def
      spawnLoop_idle COIN_SPAWN_INTERVAL_def)
  have "coinLoop MAX_PHYSICS_DT (coins (spawnPhase noRandom MAX_PHYSICS_DT highRoom))
           (players highRoom) []
        = ([moveCoin MAX_PHYSICS_DT highCoin], catchRoster, [])"
    unfolding sp
    by (simp add: highRoom_def catchRoom_def initialRoom_def highCoin_kept del: coinLoop.simps)
  from advancePhysics_unfold [OF this] show ?thesis by simp
qed

theorem ground_removal_witness:
  "pastGround (moveCoin MAX_PHYSICS_DT deepCoin)
   \<and> coinLoop MAX_PHYSICS_DT [deepCoin] catchRoster [] = ([], catchRoster, [])
   \<and> moveCoin MAX_PHYSICS_DT highCoin
        \<in> set (coins (fst (advancePhysics noRandom MAX_PHYSICS_DT highRoom)))
   \<and> \<not> pastGround (moveCoin MAX_PHYSICS_DT highCoin)"
proof -
  have h: "pastGround (moveCoin MAX_PHYSICS_DT deepCoin)"
    by (simp add: pastGround_def moveCoin_def deepCoin_def Let_def MAX_PHYSICS_DT_def
        geometry_defs)
  note g = ground_removal [where c = deepCoin and dt = MAX_PHYSICS_DT and cs = "[]"
      and ps = catchRoster and col = "[]" and rnd = noRandom and s = highRoom]
  from g h
  have "coinLoop MAX_PHYSICS_DT [deepCoin] catchRoster []
          = coinLoop MAX_PHYSICS_DT [] catchRoster []"
    by blast
  then have a: "coinLoop MAX_PHYSICS_DT [deepCoin] catchRoster [] = ([], catchRoster, [])"
    by simp
  have m: "moveCoin MAX_PHYSICS_DT highCoin
        \<in> set (coins (fst (advancePhysics noRandom MAX_PHYSICS_DT highRoom)))"
    by (simp add: highRoom_coins)
  with g have "\<not> pastGround (moveCoin MAX_PHYSICS_DT highCoin)" by blast
  with h a m show ?thesis by blast
qed

subsection \<open>Catches\<close>

text \<open>
  Claim C3. When the coin in hand is not past the ground and some player of the current
  roster passes the hit test, the loop body credits exactly the first such player in
  iteration order: the roster changes at that one position only, where the score grows by
  10; the coin is not kept; exactly one event, carrying that player's id and the coin's
  position, is appended. Over a whole call of \<^verbatim>\<open>_advancePhysics\<close> the roster keeps its
  ids, the scores grow in total by 10 for each returned event, every coin the spawn phase
  leaves is either kept, or past the ground, or the subject of exactly one event, and
  every event names a player of the roster.
\<close>

theorem catch_credit:
  "(coinLoop dt cs ps col = (cs', ps', col') \<and> \<not> pastGround (moveCoin dt c)
      \<and> (\<exists>q \<in> set ps'. hits (moveCoin dt c) (snd q))
    \<longrightarrow> (\<exists>k < length ps'.
          hits (moveCoin dt c) (snd (ps' ! k))
          \<and> (\<forall>j < k. \<not> hits (moveCoin dt c) (snd (ps' ! j)))
          \<and> coinLoop dt (c # cs) ps col
              = (cs',
                 ps'[k := (fst (ps' ! k), (snd (ps' ! k))\<lparr>score := score (snd (ps' ! k)) + 10\<rparr>)],
                 col' @ [\<lparr>playerId = fst (ps' ! k), ex = cx (moveCoin dt c),
                          ey = cy (moveCoin dt c)\<rparr>])))
   \<and> (advancePhysics rnd dt s = (s', caught)
    \<longrightarrow> map fst (players s') = map fst (players s)
        \<and> sum_list (map (score \<circ> snd) (players s'))
            = sum_list (map (score \<circ> snd) (players s)) + 10 * int (length caught)
        \<and> length (coins s') + length caught
            + length (filter (\<lambda>c. pastGround (moveCoin dt c)) (coins (spawnPhase rnd dt s)))
            = length (coins (spawnPhase rnd dt s))
        \<and> playerId ` set caught \<subseteq> fst ` set (players s))"
proof (intro conjI impI)
  assume h: "coinLoop dt cs ps col = (cs', ps', col') \<and> \<not> pastGround (moveCoin dt c)
      \<and> (\<exists>q \<in> set ps'. hits (moveCoin dt c) (snd q))"
  then have r: "coinLoop dt cs ps col = (cs', ps', col')"
    and g: "\<not> pastGround (moveCoin dt c)"
    and e: "\<exists>q \<in> set ps'. hits (moveCoin dt c) (snd q)" by blast+
  from e have "creditFirstHit (moveCoin dt c) ps' \<noteq> None"
    by (auto simp: creditFirstHit_None)
  then obtain ps2 w where some: "creditFirstHit (moveCoin dt c) ps' = Some (ps2, w)"
    by (cases "creditFirstHit (moveCoin dt c) ps'") auto
  from creditFirstHit_Some [OF some] obtain k where k: "k < length ps'"
    "hits (moveCoin dt c) (snd (ps' ! k))" "\<forall>j < k. \<not> hits (moveCoin dt c) (snd (ps' ! j))"
    "w = fst (ps' ! k)"
    "ps2 = ps'[k := (fst (ps' ! k), (snd (ps' ! k))\<lparr>score := score (snd (ps' ! k)) + 10\<rparr>)]"
    by blast
  have "coinLoop dt (c # cs) ps col
          = (cs', ps2, col' @ [\<lparr>playerId = w, ex = cx (moveCoin dt c), ey = cy (moveCoin dt c)\<rparr>])"
    using g some by (simp add: coinLoop_Cons [OF r] del: coinLoop.simps)
  with k show "\<exists>k < length ps'.
          hits (moveCoin dt c) (snd (ps' ! k))
          \<and> (\<forall>j < k. \<not> hits (moveCoin dt c) (snd (ps' ! j)))
          \<and> coinLoop dt (c # cs) ps col
              = (cs',
                 ps'[k := (fst (ps' ! k), (snd (ps' ! k))\<lparr>score := score (snd (ps' ! k)) + 10\<rparr>)],
                 col' @ [\<lparr>playerId = fst (ps' ! k), ex = cx (moveCoin dt c),
                          ey = cy (moveCoin dt c)\<rparr>])"
    by (intro exI [of _ k]) simp
next
  assume a: "advancePhysics rnd dt s = (s', caught)"
  obtain cs ps col where r:
    "coinLoop dt (coins (spawnPhase rnd dt s)) (players s) [] = (cs, ps, col)"
    by (cases "coinLoop dt (coins (spawnPhase rnd dt s)) (players s) []") auto
  from a advancePhysics_unfold [OF r]
  have s': "s' = (spawnPhase rnd dt s)\<lparr>coins := cs, players := ps\<rparr>" and c: "caught = col"
    by simp_all
  have sc: "(score \<circ> snd) = (\<lambda>(i, p). score p)" by auto
  from coinLoop_accounting [OF r] obtain new where acc:
    "map fst ps = map fst (players s)" "col = [] @ new"
    "sum_list (map (\<lambda>(i, p). score p) ps)
       = sum_list (map (\<lambda>(i, p). score p) (players s)) + 10 * int (length new)"
    "length cs + length new
       + length (filter (\<lambda>c. pastGround (moveCoin dt c)) (coins (spawnPhase rnd dt s)))
       = length (coins (spawnPhase rnd dt s))"
    "playerId ` set new \<subseteq> fst ` set (players s)"
    by blast
  from acc show "map fst (players s') = map fst (players s)" by (simp add: s')
  from acc show "sum_list (map (score \<circ> snd) (players s'))
            = sum_list (map (score \<circ> snd) (players s)) + 10 * int (length caught)"
    by (simp add: s' c sc)
  from acc show "length (coins s') + length caught
            + length (filter (\<lambda>c. pastGround (moveCoin dt c)) (coins (spawnPhase rnd dt s)))
            = length (coins (spawnPhase rnd dt s))"
    by (simp add: s' c)
  from acc show "playerId ` set caught \<subseteq> fst ` set (players s)" by (simp add: c)
qed

theorem catch_credit_witness:
  "coinLoop MAX_PHYSICS_DT [] catchRoster [] = ([], catchRoster, [])
   \<and> \<not> pastGround (moveCoin MAX_PHYSICS_DT lowCoin)
   \<and> hits (moveCoin MAX_PHYSICS_DT lowCoin) (snd (catchRoster ! 0))
   \<and> hits (moveCoin MAX_PHYSICS_DT lowCoin) (snd (catchRoster ! 1))
   \<and> (\<exists>k < length catchRoster.
        hits (moveCoin MAX_PHYSICS_DT lowCoin) (snd (catchRoster ! k))
        \<and> (\<forall>j < k. \<not> hits (moveCoin MAX_PHYSICS_DT lowCoin) (snd (catchRoster ! j)))
        \<and> coinLoop MAX_PHYSICS_DT [lowCoin] catchRoster []
            = ([],
               catchRoster[k := (fst (catchRoster ! k),
                                 (snd (catchRoster ! k))\<lparr>score := score (snd (catchRoster ! k)) + 10\<rparr>)],
               [] @ [\<lparr>playerId = fst (catchRoster ! k), ex = cx (moveCoin MAX_PHYSICS_DT lowCoin),
                      ey = cy (moveCoin MAX_PHYSICS_DT lowCoin)\<rparr>]))
   \<and> sum_list (map (score \<circ> snd) (players (fst (advancePhysics noRandom MAX_PHYSICS_DT catchRoom))))
       = sum_list (map (score \<circ> snd) (players catchRoom)) + 10 * int (length [\<lparr>playerId = 4, ex = 130, ey = 505\<rparr>])"
proof -
  have h1: "coinLoop MAX_PHYSICS_DT [] catchRoster [] = ([], catchRoster, [])" by simp
  have h2: "\<not> pastGround (moveCoin MAX_PHYSICS_DT lowCoin)"
    unfolding lowCoin_moved by (simp add: pastGround_def geometry_defs)
  have h3: "hits (moveCoin MAX_PHYSICS_DT lowCoin) (snd (catchRoster ! 0))"
    unfolding lowCoin_moved by (simp add: hits_def catchRoster_def mkPlayer_def geometry_defs Let_def)
  have h4: "hits (moveCoin MAX_PHYSICS_DT lowCoin) (snd (catchRoster ! 1))"
    unfolding lowCoin_moved by (simp add: hits_def catchRoster_def mkPlayer_def geometry_defs Let_def)
  have h5: "\<exists>q \<in> set catchRoster. hits (moveCoin MAX_PHYSICS_DT lowCoin) (snd q)"
    using h3 by (simp add: catchRoster_def)
  note inst = catch_credit [where dt = MAX_PHYSICS_DT and cs = "[]" and ps = catchRoster
      and col = "[]" and cs' = "[]" and ps' = catchRoster and col' = "[]" and c = lowCoin
      and rnd = noRandom and s = catchRoom
      and s' = "fst (advancePhysics noRandom MAX_PHYSICS_DT catchRoom)"
      and caught = "[\<lparr>playerId = 4, ex = 130, ey = 505\<rparr>]"]
  from inst h1 h2 h5 have c1: "\<exists>k < length catchRoster.
        hits (moveCoin MAX_PHYSICS_DT lowCoin) (snd (catchRoster ! k))
        \<and> (\<forall>j < k. \<not> hits (moveCoin MAX_PHYSICS_DT lowCoin) (snd (catchRoster ! j)))
        \<and> coinLoop MAX_PHYSICS_DT [lowCoin] catchRoster []
            = ([],
               catchRoster[k := (fst (catchRoster ! k),
                                 (snd (catchRoster ! k))\<lparr>score := score (snd (catchRoster ! k)) + 10\<rparr>)],
               [] @ [\<lparr>playerId = fst (catchRoster ! k), ex = cx (moveCoin MAX_PHYSICS_DT lowCoin),
                      ey = cy (moveCoin MAX_PHYSICS_DT lowCoin)\<rparr>])"
    by blast
  have "advancePhysics noRandom MAX_PHYSICS_DT catchRoom
          = (fst (advancePhysics noRandom MAX_PHYSICS_DT catchRoom), [\<lparr>playerId = 4, ex = 130, ey = 505\<rparr>])"
    by (simp add: catchRoom_step)
  with inst have c2: "sum_list (map (score \<circ> snd) (players (fst (advancePhysics noRandom MAX_PHYSICS_DT catchRoom))))
       = sum_list (map (score \<circ> snd) (players catchRoom)) + 10 * int (length [\<lparr>playerId = 4, ex = 130, ey = 505\<rparr>])"
    by blast
  from h1 h2 h3 h4 c1 c2 show ?thesis by blast
qed

subsection \<open>Time left\<close>

lemma endGame_frame:
  "timeLeft (fst (endGame s)) = timeLeft s \<and> players (fst (endGame s)) = players s
   \<and> waitingRoom (fst (endGame s)) = waitingRoom s
   \<and> pendingCollected (fst (endGame s)) = pendingCollected s
   \<and> state (fst (endGame s)) = GAME_OVER"
  by (simp add: endGame_def Let_def)

lemma broadcastGameState_frame:
  "timeLeft (fst (broadcastGameState dead col s)) = timeLeft s
   \<and> state (fst (broadcastGameState dead col s)) = state s
   \<and> coins (fst (broadcastGameState dead col s)) = coins s"
  by (simp add: broadcastGameState_def)

text \<open>The part both triggers share, after the step size is known.\<close>

lemma stepDt_setX: "stepDt now (s\<lparr>players := ps\<rparr>) = stepDt now s"
  by (simp add: stepDt_def)

lemma movePath_timeLeft:
  assumes "state s = PLAYING" "mapHas i (players s)"
  shows "timeLeft (fst (movePath i (Some v) now rnd dead s)) = max 0 (timeLeft s - stepDt now s)"
proof -
  let ?s1 = "s\<lparr>players := setX i (clampX v) (players s)\<rparr>"
  obtain s2 caught where a: "advancePhysics rnd (stepDt now s) ?s1 = (s2, caught)"
    by (cases "advancePhysics rnd (stepDt now s) ?s1") auto
  from advancePhysics_frame [OF a] have t: "timeLeft s2 = timeLeft s - stepDt now s" by simp
  show ?thesis
    using assms a t
    by (simp add: movePath_def Let_def stepDt_setX endGame_frame broadcastGameState_frame
        split_beta)
qed

lemma handleAlarm_timeLeft:
  assumes "state s = PLAYING" "players s \<noteq> []"
  shows "timeLeft (fst (handleAlarm now rnd dead s)) = max 0 (timeLeft s - stepDt now s)"
proof -
  obtain s2 caught where a: "advancePhysics rnd (stepDt now s) s = (s2, caught)"
    by (cases "advancePhysics rnd (stepDt now s) s") auto
  from advancePhysics_frame [OF a] have t: "timeLeft s2 = timeLeft s - stepDt now s" by simp
  show ?thesis
    using assms a t
    by (simp add: handleAlarm_def Let_def endGame_frame broadcastGameState_frame
        split_beta)
qed

lemma movePath_over:
  assumes "state s = PLAYING" "mapHas i (players s)" "timeLeft s - stepDt now s \<le> 0"
  shows "state (fst (movePath i (Some v) now rnd dead s)) = GAME_OVER"
proof -
  let ?s1 = "s\<lparr>players := setX i (clampX v) (players s)\<rparr>"
  obtain s2 caught where a: "advancePhysics rnd (stepDt now s) ?s1 = (s2, caught)"
    by (cases "advancePhysics rnd (stepDt now s) ?s1") auto
  from advancePhysics_frame [OF a] have t: "timeLeft s2 = timeLeft s - stepDt now s" by simp
  show ?thesis
    using assms a t
    by (simp add: movePath_def Let_def stepDt_setX endGame_frame split_beta)
qed

lemma handleAlarm_over:
  assumes "state s = PLAYING" "players s \<noteq> []" "timeLeft s - stepDt now s \<le> 0"
  shows "state (fst (handleAlarm now rnd dead s)) = GAME_OVER"
proof -
  obtain s2 caught where a: "advancePhysics rnd (stepDt now s) s = (s2, caught)"
    by (cases "advancePhysics rnd (stepDt now s) s") auto
  from advancePhysics_frame [OF a] have t: "timeLeft s2 = timeLeft s - stepDt now s" by simp
  show ?thesis
    using assms a t
    by (simp add: handleAlarm_def Let_def endGame_frame split_beta)
qed

text \<open>
  Claim C1, as stated, fails: the claim has the physics advance function floor
  \<^verbatim>\<open>timeLeft\<close> at 0. \<^verbatim>\<open>_advancePhysics\<close> only subtracts: with a tenth of a second
  left, a step of 0.2 s leaves \<^verbatim>\<open>timeLeft\<close> negative when the function returns.
\<close>

theorem advance_no_floor_counterexample:
  "state lateRoom = PLAYING \<and> timeLeft lateRoom = 1 / 10
   \<and> timeLeft (fst (advancePhysics noRandom MAX_PHYSICS_DT lateRoom)) = - (1 / 10)
   \<and> timeLeft (fst (advancePhysics noRandom MAX_PHYSICS_DT lateRoom)) < 0"
proof -
  have "timeLeft (fst (advancePhysics noRandom MAX_PHYSICS_DT lateRoom))
          = timeLeft lateRoom - MAX_PHYSICS_DT"
    using advancePhysics_frame [of noRandom MAX_PHYSICS_DT lateRoom
        "fst (advancePhysics noRandom MAX_PHYSICS_DT lateRoom)"
        "snd (advancePhysics noRandom MAX_PHYSICS_DT lateRoom)"]
    by simp
  then show ?thesis by (simp add: lateRoom_def initialRoom_def MAX_PHYSICS_DT_def)
qed

text \<open>
  Claim C1, amended. A physics step taken while \<open>PLAYING\<close> is a \<^verbatim>\<open>move\<close> message of
  an active player with a numeric \<open>x\<close>, in a frame of at most 512 characters (a longer
  frame is dropped before it is parsed and is no step), or a fallback alarm with a
  non-empty roster.
  \<^verbatim>\<open>_advancePhysics\<close> decrements \<^verbatim>\<open>timeLeft\<close> by the step's \<open>dt\<close> and does not floor
  it; the handler floors it at 0 right after, and ends the round then. So after the
  handler \<^verbatim>\<open>timeLeft\<close> is \<open>max 0 (timeLeft - dt)\<close>, never negative, and not greater than
  before when the clock has not run backwards since the last step and \<^verbatim>\<open>timeLeft\<close>
  was not negative.
\<close>

theorem time_left_step:
  assumes "state s = PLAYING"
    and "(e = Move len i (Some v) now rnd dead \<and> len \<le> 512 \<and> mapHas i (players s))
         \<or> (e = Alarm now rnd dead \<and> players s \<noteq> [])"
  shows "timeLeft (fst (advancePhysics rnd (stepDt now s) s)) = timeLeft s - stepDt now s
    \<and> timeLeft (fst (handle e s)) = max 0 (timeLeft s - stepDt now s)
    \<and> 0 \<le> timeLeft (fst (handle e s))
    \<and> (lastPhysicsTime s \<le> now \<and> 0 \<le> timeLeft s \<longrightarrow> timeLeft (fst (handle e s)) \<le> timeLeft s)
    \<and> (timeLeft s - stepDt now s \<le> 0 \<longrightarrow> state (fst (handle e s)) = GAME_OVER)"
proof -
  have a: "timeLeft (fst (advancePhysics rnd (stepDt now s) s)) = timeLeft s - stepDt now s"
    using advancePhysics_frame [of rnd "stepDt now s" s
        "fst (advancePhysics rnd (stepDt now s) s)" "snd (advancePhysics rnd (stepDt now s) s)"]
    by simp
  have b: "timeLeft (fst (handle e s)) = max 0 (timeLeft s - stepDt now s)"
    using assms movePath_timeLeft [of s i v now rnd dead]
      handleAlarm_timeLeft [of s now rnd dead]
    by (auto simp: handleMove_def)
  have d: "lastPhysicsTime s \<le> now \<Longrightarrow> 0 \<le> stepDt now s"
    by (simp add: stepDt_def MAX_PHYSICS_DT_def)
  have g: "timeLeft s - stepDt now s \<le> 0 \<Longrightarrow> state (fst (handle e s)) = GAME_OVER"
    using assms movePath_over [of s i now v rnd dead] handleAlarm_over [of s now rnd dead]
    by (auto simp: handleMove_def)
  from a b d g show ?thesis by auto
qed

theorem time_left_step_witness:
  "state lateRoom = PLAYING \<and> players lateRoom \<noteq> [] \<and> mapHas 4 (players lateRoom)
   \<and> lastPhysicsTime lateRoom \<le> 1200 \<and> 0 \<le> timeLeft lateRoom
   \<and> stepDt 1200 lateRoom = 2 / 10
   \<and> timeLeft (fst (handle (Alarm 1200 noRandom {}) lateRoom)) = 0
   \<and> timeLeft (fst (handle (Alarm 1200 noRandom {}) lateRoom)) \<le> timeLeft lateRoom
   \<and> timeLeft lateRoom - stepDt 1200 lateRoom \<le> 0
   \<and> state (fst (handle (Alarm 1200 noRandom {}) lateRoom)) = GAME_OVER
   \<and> (40::nat) \<le> 512
   \<and> timeLeft (fst (handle (Move 40 4 (Some 100) 1050 noRandom {}) lateRoom)) = 1 / 20
   \<and> timeLeft (fst (handle (Move 40 4 (Some 100) 1050 noRandom {}) lateRoom)) \<le> timeLeft lateRoom"
proof -
  have h1: "state lateRoom = PLAYING"
    by (simp add: lateRoom_def initialRoom_def)
  have h2: "players lateRoom \<noteq> []" "mapHas 4 (players lateRoom)"
    by (simp_all add: lateRoom_def initialRoom_def catchRoster_def mapHas_def)
  have h3: "lastPhysicsTime lateRoom \<le> 1200" "lastPhysicsTime lateRoom \<le> 1050"
    and h4: "0 \<le> timeLeft lateRoom"
    by (simp_all add: lateRoom_def initialRoom_def)
  have tl: "timeLeft lateRoom - stepDt 1200 lateRoom = - (1 / 10)"
    "timeLeft lateRoom - stepDt 1050 lateRoom = 1 / 20"
    and dt: "stepDt 1200 lateRoom = 2 / 10"
    by (simp_all add: stepDt_def lateRoom_def initialRoom_def MAX_PHYSICS_DT_def)
  have h5: "(Alarm 1200 noRandom {} = Move 0 0 (Some 0) 1200 noRandom {} \<and> (0::nat) \<le> 512
            \<and> mapHas 0 (players lateRoom))
         \<or> (Alarm 1200 noRandom {} = Alarm 1200 noRandom {} \<and> players lateRoom \<noteq> [])"
    using h2 by simp
  from time_left_step [OF h1 h5] h3 h4
  have "timeLeft (fst (handle (Alarm 1200 noRandom {}) lateRoom))
          = max 0 (timeLeft lateRoom - stepDt 1200 lateRoom)"
    and le: "timeLeft (fst (handle (Alarm 1200 noRandom {}) lateRoom)) \<le> timeLeft lateRoom"
    by blast+
  then have z: "timeLeft (fst (handle (Alarm 1200 noRandom {}) lateRoom)) = 0"
    unfolding tl by simp
  have neg: "timeLeft lateRoom - stepDt 1200 lateRoom \<le> 0" unfolding tl by simp
  with time_left_step [OF h1 h5]
  have ov: "state (fst (handle (Alarm 1200 noRandom {}) lateRoom)) = GAME_OVER" by blast
  have h6: "(Move 40 4 (Some 100) 1050 noRandom {} = Move 40 4 (Some 100) 1050 noRandom {}
            \<and> (40::nat) \<le> 512 \<and> mapHas 4 (players lateRoom))
         \<or> (Move 40 4 (Some 100) 1050 noRandom {} = Alarm 1050 noRandom {}
            \<and> players lateRoom \<noteq> [])"
    using h2 by simp
  from time_left_step [OF h1 h6] h3 h4
  have "timeLeft (fst (handle (Move 40 4 (Some 100) 1050 noRandom {}) lateRoom))
          = max 0 (timeLeft lateRoom - stepDt 1050 lateRoom)"
    and le2: "timeLeft (fst (handle (Move 40 4 (Some 100) 1050 noRandom {}) lateRoom))
                \<le> timeLeft lateRoom"
    by blast+
  then have z2: "timeLeft (fst (handle (Move 40 4 (Some 100) 1050 noRandom {}) lateRoom)) = 1 / 20"
    unfolding tl by simp
  have sz: "(40::nat) \<le> 512" by simp
  from h1 h2 h3 h4 dt z le neg ov sz z2 le2 show ?thesis by blast
qed

subsection \<open>The clamp on the step size\<close>






subsection \<open>Joining\<close>



lemma mapSet_new: "k \<notin> set (map fst m) \<Longrightarrow> mapSet k v m = m @ [(k, v)]"
  by (induction m) auto

lemma mapSet_length: "length (mapSet k v m) \<le> Suc (length m)"
  by (induction m) auto

lemma mapSet_keys:
  "map fst (mapSet k v m) = (if k \<in> set (map fst m) then map fst m else map fst m @ [k])"
  by (induction m) (force simp: image_iff)+

lemma addToWaitingRoom_result:
  "players (fst (addToWaitingRoom i nm h u s)) = players s
   \<and> state (fst (addToWaitingRoom i nm h u s)) = state s
   \<and> waitingRoom (fst (addToWaitingRoom i nm h u s))
       = mapSet i \<lparr>wcolor = PLAYER_COLORS ! (length (waitingRoom s) mod length PLAYER_COLORS),
                   wname = nm, what = h, wuserId = u\<rparr> (waitingRoom s)
   \<and> snd (addToWaitingRoom i nm h u s) = [SendTo i Waiting]"
  by (simp add: addToWaitingRoom_def Let_def)

lemma addPlayerToLobby_open:
  assumes "length (players s) < MAX_PLAYERS"
  shows "players (fst (addPlayerToLobby i nm h u s))
       = mapSet i \<lparr>px = CANVAS_WIDTH / 2 - PLAYER_WIDTH / 2, score = 0,
                   color = PLAYER_COLORS ! (length (players s) mod length PLAYER_COLORS),
                   name = nm, hat = h, userId = u\<rparr> (players s)
     \<and> waitingRoom (fst (addPlayerToLobby i nm h u s)) = waitingRoom s
     \<and> SendTo i NameRejected \<notin> set (snd (addPlayerToLobby i nm h u s))
     \<and> SendTo i Waiting \<notin> set (snd (addPlayerToLobby i nm h u s))"
  using assms
  by (simp add: addPlayerToLobby_def Let_def startCountdown_def broadcastLobbyMsg_def)

lemma addPlayerToLobby_full:
  "length (players s) \<ge> MAX_PLAYERS \<Longrightarrow>
   addPlayerToLobby i nm h u s = addToWaitingRoom i nm h u s"
  by (simp add: addPlayerToLobby_def)




lemma joinCase_rejected:
  "\<not> mapHas i (players s) \<Longrightarrow> \<not> mapHas i (waitingRoom s) \<Longrightarrow>
   \<not> isNameClean (displayName nameValue) \<Longrightarrow>
   joinCase i nameValue rawUserId rawHat s = (s, [SendTo i NameRejected])"
  by (simp add: joinCase_def Let_def)

text \<open>
  Claim C10. A \<^verbatim>\<open>join\<close> message from a connection whose id is already in the active
  roster or in the waiting room leaves the whole room as it is and has no effect.
\<close>

theorem join_idempotent:
  "mapHas i (players s) \<or> mapHas i (waitingRoom s) \<Longrightarrow>
   handle (Join len i nameValue rawUserId rawHat) s = (s, [])"
  by (simp add: handleJoin_def joinCase_def)

theorem join_idempotent_witness:
  "mapHas 4 (players catchRoom)
   \<and> handle (Join 60 4 (JString ''Zed'') None (Some ''crown'')) catchRoom = (catchRoom, [])"
proof -
  have h: "mapHas 4 (players catchRoom)"
    by (simp add: mapHas_def catchRoom_def catchRoster_def initialRoom_def)
  then have "mapHas 4 (players catchRoom) \<or> mapHas 4 (waitingRoom catchRoom)" by simp
  from join_idempotent [OF this] h show ?thesis by simp
qed





subsection \<open>Capacity\<close>

lemma mapSet_length_lt: "length m < n \<Longrightarrow> length (mapSet k v m) \<le> n"
  using mapSet_length [of k v m] by simp

lemma copyPlayers_bound:
  "copyPlayers ps (allPlayers, index) = (kept, index') \<Longrightarrow> index < MAX_PLAYERS \<Longrightarrow>
   length allPlayers \<le> index \<Longrightarrow> length kept \<le> index' \<and> index' \<le> MAX_PLAYERS"
proof (induction ps arbitrary: allPlayers index)
  case Nil
  then show ?case by simp
next
  case (Cons a ps)
  obtain i p where a: "a = (i, p)" by (cases a)
  let ?all = "mapSet i (p\<lparr>color := colorAt index, score := 0, px := lobbyX\<rparr>) allPlayers"
  have len: "length ?all \<le> Suc index"
    using mapSet_length [of i _ allPlayers] Cons.prems(3) by (meson Suc_le_mono le_trans)
  show ?case
  proof (cases "Suc index \<ge> MAX_PLAYERS")
    case True
    with Cons.prems a have "kept = ?all" "index' = Suc index" by (simp_all add: Let_def)
    with len Cons.prems(2) show ?thesis by simp
  next
    case False
    with Cons.prems a have "copyPlayers ps (?all, Suc index) = (kept, index')"
      by (simp add: Let_def)
    from Cons.IH [OF this _ len] False show ?thesis by simp
  qed
qed

lemma promoteWaiters_bound:
  "promoteWaiters ws (allPlayers, index, rem) = (allPlayers', index', rem') \<Longrightarrow>
   length allPlayers \<le> index \<Longrightarrow> index \<le> MAX_PLAYERS \<Longrightarrow>
   length allPlayers' \<le> index' \<and> index' \<le> MAX_PLAYERS"
proof (induction ws arbitrary: allPlayers index rem)
  case Nil
  then show ?case by simp
next
  case (Cons a ws)
  obtain i w where a: "a = (i, w)" by (cases a)
  show ?case
  proof (cases "index < MAX_PLAYERS")
    case True
    let ?all = "mapSet i (promote index w) allPlayers"
    have len: "length ?all \<le> Suc index"
      using mapSet_length [of i _ allPlayers] Cons.prems(2) by (meson Suc_le_mono le_trans)
    from True Cons.prems a have "promoteWaiters ws (?all, Suc index, rem) = (allPlayers', index', rem')"
      by simp
    from Cons.IH [OF this len] True show ?thesis by simp
  next
    case False
    with Cons.prems a have "promoteWaiters ws (allPlayers, index, mapSet i w rem) = (allPlayers', index', rem')"
      by simp
    from Cons.IH [OF this Cons.prems(2) Cons.prems(3)] show ?thesis .
  qed
qed

lemma returnToLobby_bound: "length (players (fst (returnToLobby s))) \<le> MAX_PLAYERS"
proof -
  obtain kept index where c: "copyPlayers (players s) ([], 0) = (kept, index)"
    by (cases "copyPlayers (players s) ([], 0)") auto
  obtain allPlayers index' rem where p: "promoteWaiters (waitingRoom s) (kept, index, []) = (allPlayers, index', rem)"
    by (cases "promoteWaiters (waitingRoom s) (kept, index, [])") auto
  from copyPlayers_bound [OF c] have "length kept \<le> index" "index \<le> MAX_PLAYERS"
    by (simp_all add: MAX_PLAYERS_def)
  from promoteWaiters_bound [OF p this] have "length allPlayers \<le> MAX_PLAYERS" by simp
  with c p show ?thesis by (simp add: returnToLobby_def Let_def)
qed

lemma placePlayers_length: "length (placePlayers n i ps) = length ps"
  by (induction ps arbitrary: i) auto

lemma advancePhysics_roster:
  "map fst (players (fst (advancePhysics rnd dt s))) = map fst (players s)"
proof -
  obtain cs ps col where r:
    "coinLoop dt (coins (spawnPhase rnd dt s)) (players s) [] = (cs, ps, col)"
    by (cases "coinLoop dt (coins (spawnPhase rnd dt s)) (players s) []") auto
  from coinLoop_accounting [OF r] advancePhysics_unfold [OF r] show ?thesis by simp
qed

lemma advancePhysics_length:
  "length (players (fst (advancePhysics rnd dt s))) = length (players s)"
  using advancePhysics_roster [of rnd dt s] by (metis length_map)

lemma joinCase_bound:
  "length (players s) \<le> MAX_PLAYERS \<Longrightarrow>
   length (players (fst (joinCase i nm u h s))) \<le> MAX_PLAYERS"
proof -
  assume b: "length (players s) \<le> MAX_PLAYERS"
  have w: "length (players (fst (addToWaitingRoom i n' h' u' s))) \<le> MAX_PLAYERS" for n' h' u'
    using b by (simp add: addToWaitingRoom_result)
  have l: "length (players (fst (addPlayerToLobby i n' h' u' s))) \<le> MAX_PLAYERS" for n' h' u'
  proof (cases "length (players s) < MAX_PLAYERS")
    case True
    from addPlayerToLobby_open [OF True, of i n' h' u'] mapSet_length_lt [OF True]
    show ?thesis by simp
  next
    case False
    then show ?thesis using w by (simp add: addPlayerToLobby_full)
  qed
  show ?thesis using b w l by (simp add: joinCase_def Let_def)
qed

lemma movePath_bound:
  "length (players s) \<le> MAX_PLAYERS \<Longrightarrow>
   length (players (fst (movePath i x now rnd dead s))) \<le> MAX_PLAYERS"
proof (cases x)
  case None
  assume "length (players s) \<le> MAX_PLAYERS"
  with None show ?thesis by (simp add: movePath_def)
next
  case (Some v)
  assume b: "length (players s) \<le> MAX_PLAYERS"
  let ?s1 = "s\<lparr>players := setX i (clampX v) (players s)\<rparr>"
  have "length (players (fst (advancePhysics rnd (stepDt now ?s1) ?s1))) = length (players s)"
    by (simp add: advancePhysics_length setX_def)
  moreover have "length (filter P xs) \<le> length xs" for P and xs :: "(pid \<times> player) list"
    by simp
  ultimately show ?thesis
    using Some b
    by (simp add: movePath_def Let_def split_beta endGame_frame broadcastGameState_def
        le_trans [OF length_filter_le])
qed

lemma handleClose_bound:
  "length (players s) \<le> MAX_PLAYERS \<Longrightarrow>
   length (players (fst (handleClose i s))) \<le> MAX_PLAYERS"
  by (simp add: handleClose_def Let_def split_beta returnToLobby_bound mapDelete_def
      le_trans [OF length_filter_le])

lemma handleAlarm_bound:
  "length (players s) \<le> MAX_PLAYERS \<Longrightarrow>
   length (players (fst (handleAlarm now rnd dead s))) \<le> MAX_PLAYERS"
proof -
  assume b: "length (players s) \<le> MAX_PLAYERS"
  have "length (players (fst (advancePhysics rnd (stepDt now s) s))) = length (players s)"
    by (simp add: advancePhysics_length)
  then show ?thesis
    using b
    by (cases "state s")
      (simp_all add: handleAlarm_def Let_def split_beta returnToLobby_bound startCountdown_def
        startPlaying_def placePlayers_length endGame_frame broadcastGameState_def
        le_trans [OF length_filter_le])
qed

lemma reachable_bound: "reachable s \<Longrightarrow> length (players s) \<le> MAX_PLAYERS"
proof (induction rule: reachable.induct)
  case init
  show ?case by (simp add: initialRoom_def)
next
  case (step s e)
  then show ?case
    by (cases e)
      (simp_all add: handleJoin_def handleMove_def joinCase_bound movePath_bound
        handleClose_bound handleAlarm_bound)
qed

lemma reachable_run: "reachable s \<Longrightarrow> reachable (fst (run es s))"
proof (induction es arbitrary: s)
  case Nil
  then show ?case by simp
next
  case (Cons e es)
  from Cons.prems have "reachable (fst (handle e s))" by (rule reachable.step)
  from Cons.IH [OF this] show ?case by (simp add: split_beta)
qed

lemma lobby_join:
  "state s = LOBBY \<Longrightarrow> length (players s) < MAX_PLAYERS \<Longrightarrow> \<not> mapHas i (players s) \<Longrightarrow>
   \<not> mapHas i (waitingRoom s) \<Longrightarrow> sanitizeName nm \<noteq> [] \<Longrightarrow> isNameClean (sanitizeName nm) \<Longrightarrow>
   fst (joinCase i (JString nm) None None s)
     = (let s1 = s\<lparr>players := players s @ [(i, \<lparr>px = lobbyX, score = 0,
                   color = colorAt (length (players s)),
                   name = sanitizeName nm, hat = ''cap'', userId = None\<rparr>)]\<rparr>
        in if length (players s1) \<ge> MAX_PLAYERS
           then s1\<lparr>state := COUNTDOWN, countdownSeconds := COUNTDOWN_SECONDS\<rparr> else s1)"
  by (simp add: joinCase_def displayName_def nameString_def Let_def addPlayerToLobby_def
      validHat_def validUserId_def mapSet_new mapHas_def startCountdown_def lobbyX_def
      colorAt_def)

lemma names:
  "sanitizeName ''Ann'' = ''Ann''" "sanitizeName ''Bob'' = ''Bob''" "sanitizeName ''Cy'' = ''Cy''"
  "sanitizeName ''Dee'' = ''Dee''" "sanitizeName ''Eve'' = ''Eve''"
  "isNameClean ''Ann''" "isNameClean ''Bob''" "isNameClean ''Cy''" "isNameClean ''Dee''"
  "isNameClean ''Eve''"
  by (simp_all add: sanitizeName_def trim_def allowedChar_def isNameClean_def BLOCKED_WORDS_def
      toLowerChar_def separatorChar_def)



lemma fullRoom_eq:
  "fullRoom = initialRoom\<lparr>state := COUNTDOWN,
      players := [(11, lobbyPlayer ''#e74c3c'' ''Ann''), (12, lobbyPlayer ''#3498db'' ''Bob''),
                  (13, lobbyPlayer ''#2ecc71'' ''Cy''), (14, lobbyPlayer ''#f39c12'' ''Dee''),
                  (15, lobbyPlayer ''#9b59b6'' ''Eve'')]\<rparr>"
  by (simp add: fullRoom_def fiveJoins_def split_beta handleJoin_def lobby_join names
      initialRoom_def MAX_PLAYERS_def mapHas_def lobbyPlayer_def Let_def colorAt_def
      PLAYER_COLORS_def lobbyX_def geometry_defs)


text \<open>
  Claim C7, as stated, fails: the claim has every join that arrives while 5 players are
  active end in a waiting-room entry and a \<^verbatim>\<open>waiting\<close> message. In \<open>fullRoom\<close>, reached
  by five joins, a sixth connection that joins under a blocked name gets
  \<^verbatim>\<open>nameRejected\<close> as the only effect; the waiting room stays empty.
\<close>

theorem full_room_join_counterexample:
  "reachable fullRoom \<and> length (players fullRoom) = 5 \<and> waitingRoom fullRoom = []
   \<and> handle (Join 40 16 (JString ''s_h-i t'') None None) fullRoom
       = (fullRoom, [SendTo 16 NameRejected])"
proof -
  have r: "reachable fullRoom"
    unfolding fullRoom_def by (rule reachable_run) (rule reachable.init)
  have h: "length (players fullRoom) = 5" "waitingRoom fullRoom = []"
    "\<not> mapHas 16 (players fullRoom)" "\<not> mapHas 16 (waitingRoom fullRoom)"
    by (simp_all add: fullRoom_eq initialRoom_def mapHas_def)
  have n: "\<not> isNameClean (displayName (JString ''s_h-i t''))"
    by (simp add: displayName_def nameString_def sanitizeName_def trim_def allowedChar_def
        isNameClean_def BLOCKED_WORDS_def toLowerChar_def separatorChar_def)
  from joinCase_rejected [OF h(3) h(4) n]
  have "handle (Join 40 16 (JString ''s_h-i t'') None None) fullRoom
       = (fullRoom, [SendTo 16 NameRejected])"
    by (simp add: handleJoin_def)
  with r h show ?thesis by blast
qed

text \<open>
  Claim C7, amended. In every reachable room the active roster has at most 5 entries. A
  join arriving while 5 players are active or while the state is not \<open>LOBBY\<close> never
  changes the roster. It appends the connection to the waiting room and sends it the
  \<^verbatim>\<open>waiting\<close> message, as its only effect, when the frame has at most 512 characters,
  the connection has not joined yet and the name passes the filter. Otherwise the room
  is unchanged: a connection that has not joined yet and gives a blocked name gets
  \<^verbatim>\<open>nameRejected\<close>; a frame of more than 512 characters and a join of a connection
  that has joined already get no reply.
\<close>

theorem roster_capacity:
  "(reachable s \<longrightarrow> length (players s) \<le> 5)
   \<and> (5 \<le> length (players s) \<or> state s \<noteq> LOBBY
      \<longrightarrow> players (fst (handle (Join len i nameValue rawUserId rawHat) s)) = players s
        \<and> (len \<le> 512 \<and> \<not> mapHas i (players s) \<and> \<not> mapHas i (waitingRoom s)
             \<and> isNameClean (displayName nameValue)
           \<longrightarrow> map fst (waitingRoom (fst (handle (Join len i nameValue rawUserId rawHat) s)))
                 = map fst (waitingRoom s) @ [i]
               \<and> snd (handle (Join len i nameValue rawUserId rawHat) s) = [SendTo i Waiting])
        \<and> (len \<le> 512 \<and> \<not> mapHas i (players s) \<and> \<not> mapHas i (waitingRoom s)
             \<and> \<not> isNameClean (displayName nameValue)
           \<longrightarrow> handle (Join len i nameValue rawUserId rawHat) s = (s, [SendTo i NameRejected]))
        \<and> (len > 512 \<or> mapHas i (players s) \<or> mapHas i (waitingRoom s)
           \<longrightarrow> handle (Join len i nameValue rawUserId rawHat) s = (s, [])))"
proof (intro conjI impI)
  assume "reachable s"
  from reachable_bound [OF this] show "length (players s) \<le> 5" by (simp add: MAX_PLAYERS_def)
next
  assume f: "5 \<le> length (players s) \<or> state s \<noteq> LOBBY"
  have w: "players (fst (addToWaitingRoom i nm h u s)) = players s" for nm h u
    by (simp add: addToWaitingRoom_result)
  from f have "players (fst (joinCase i nameValue rawUserId rawHat s)) = players s"
    by (auto simp: joinCase_def Let_def addPlayerToLobby_full MAX_PLAYERS_def w)
  then show "players (fst (handle (Join len i nameValue rawUserId rawHat) s)) = players s"
    by (simp add: handleJoin_def)
next
  assume f: "5 \<le> length (players s) \<or> state s \<noteq> LOBBY"
    and a: "len \<le> 512 \<and> \<not> mapHas i (players s) \<and> \<not> mapHas i (waitingRoom s)
             \<and> isNameClean (displayName nameValue)"
  from f a have "handle (Join len i nameValue rawUserId rawHat) s
      = addToWaitingRoom i (displayName nameValue) (validHat rawHat) (validUserId rawUserId) s"
    by (auto simp: handleJoin_def joinCase_def Let_def addPlayerToLobby_full MAX_PLAYERS_def)
  moreover from a have "i \<notin> set (map fst (waitingRoom s))" by (simp add: mapHas_def)
  ultimately show "map fst (waitingRoom (fst (handle (Join len i nameValue rawUserId rawHat) s)))
                 = map fst (waitingRoom s) @ [i]"
    and "snd (handle (Join len i nameValue rawUserId rawHat) s) = [SendTo i Waiting]"
    by (simp_all add: addToWaitingRoom_result mapSet_keys)
next
  assume "len \<le> 512 \<and> \<not> mapHas i (players s) \<and> \<not> mapHas i (waitingRoom s)
             \<and> \<not> isNameClean (displayName nameValue)"
  then show "handle (Join len i nameValue rawUserId rawHat) s = (s, [SendTo i NameRejected])"
    by (simp add: handleJoin_def joinCase_rejected)
next
  assume "len > 512 \<or> mapHas i (players s) \<or> mapHas i (waitingRoom s)"
  then show "handle (Join len i nameValue rawUserId rawHat) s = (s, [])"
    by (auto simp: handleJoin_def joinCase_def)
qed

theorem roster_capacity_witness:
  "reachable fullRoom \<and> length (players fullRoom) = 5 \<and> state fullRoom = COUNTDOWN
   \<and> (40::nat) \<le> 512 \<and> \<not> mapHas 16 (players fullRoom) \<and> \<not> mapHas 16 (waitingRoom fullRoom)
   \<and> isNameClean (displayName (JString ''Eve''))
   \<and> length (players (fst (handle (Join 40 16 (JString ''Eve'') None None) fullRoom))) = 5
   \<and> map fst (waitingRoom (fst (handle (Join 40 16 (JString ''Eve'') None None) fullRoom))) = [16]
   \<and> snd (handle (Join 40 16 (JString ''Eve'') None None) fullRoom) = [SendTo 16 Waiting]
   \<and> \<not> isNameClean (displayName (JString ''s_h-i t''))
   \<and> handle (Join 40 16 (JString ''s_h-i t'') None None) fullRoom
       = (fullRoom, [SendTo 16 NameRejected])
   \<and> mapHas 11 (players fullRoom)
   \<and> handle (Join 40 11 (JString ''Eve'') None None) fullRoom = (fullRoom, [])
   \<and> (600::nat) > 512
   \<and> handle (Join 600 16 (JString ''Eve'') None None) fullRoom = (fullRoom, [])"
proof -
  have r: "reachable fullRoom"
    unfolding fullRoom_def by (rule reachable_run) (rule reachable.init)
  have h: "length (players fullRoom) = 5" "state fullRoom = COUNTDOWN"
    "\<not> mapHas 16 (players fullRoom)" "\<not> mapHas 16 (waitingRoom fullRoom)"
    "waitingRoom fullRoom = []" "mapHas 11 (players fullRoom)"
    by (simp_all add: fullRoom_eq initialRoom_def mapHas_def)
  have sz: "(40::nat) \<le> 512" "(600::nat) > 512" by simp_all
  have n: "isNameClean (displayName (JString ''Eve''))"
    "\<not> isNameClean (displayName (JString ''s_h-i t''))"
    by (simp_all add: displayName_def nameString_def sanitizeName_def trim_def allowedChar_def
        isNameClean_def BLOCKED_WORDS_def toLowerChar_def separatorChar_def)
  have f: "5 \<le> length (players fullRoom) \<or> state fullRoom \<noteq> LOBBY" using h by simp
  from roster_capacity [of fullRoom 40 16 "JString ''Eve''" None None] r f h n sz
  have a1: "length (players fullRoom) \<le> 5"
    and a2: "players (fst (handle (Join 40 16 (JString ''Eve'') None None) fullRoom))
              = players fullRoom"
    and a3: "map fst (waitingRoom (fst (handle (Join 40 16 (JString ''Eve'') None None) fullRoom)))
              = [16]"
    and a4: "snd (handle (Join 40 16 (JString ''Eve'') None None) fullRoom) = [SendTo 16 Waiting]"
    by simp_all
  from roster_capacity [of fullRoom 40 16 "JString ''s_h-i t''" None None] f h n sz
  have a5: "handle (Join 40 16 (JString ''s_h-i t'') None None) fullRoom
       = (fullRoom, [SendTo 16 NameRejected])"
    by simp
  from roster_capacity [of fullRoom 40 11 "JString ''Eve''" None None] f h
  have a6: "handle (Join 40 11 (JString ''Eve'') None None) fullRoom = (fullRoom, [])"
    by simp
  from roster_capacity [of fullRoom 600 16 "JString ''Eve''" None None] f sz
  have a7: "handle (Join 600 16 (JString ''Eve'') None None) fullRoom = (fullRoom, [])"
    by simp
  from a2 h have a8: "length (players (fst (handle (Join 40 16 (JString ''Eve'') None None) fullRoom))) = 5"
    by simp
  from r h sz n a3 a4 a5 a6 a7 a8 show ?thesis by blast
qed

subsection \<open>Promotion from the waiting room\<close>

lemma copyPlayers_exact:
  "distinct (map fst allPlayers @ map fst ps) \<Longrightarrow> index < MAX_PLAYERS \<Longrightarrow>
   map fst (fst (copyPlayers ps (allPlayers, index)))
     = map fst allPlayers @ map fst (take (MAX_PLAYERS - index) ps)
   \<and> snd (copyPlayers ps (allPlayers, index)) = index + min (MAX_PLAYERS - index) (length ps)"
proof (induction ps arbitrary: allPlayers index)
  case Nil
  then show ?case by simp
next
  case (Cons a ps)
  obtain i p where a: "a = (i, p)" by (cases a)
  let ?p = "p\<lparr>color := colorAt index, score := 0, px := lobbyX\<rparr>"
  from Cons.prems a have new: "i \<notin> set (map fst allPlayers)" by auto
  then have ms: "mapSet i ?p allPlayers = allPlayers @ [(i, ?p)]" by (rule mapSet_new)
  show ?case
  proof (cases "Suc index \<ge> MAX_PLAYERS")
    case True
    with Cons.prems(2) have "MAX_PLAYERS - index = 1" by simp
    with True a ms show ?thesis by (simp add: Let_def)
  next
    case False
    from Cons.prems a have d: "distinct (map fst (allPlayers @ [(i, ?p)]) @ map fst ps)" by auto
    from False have lt: "Suc index < MAX_PLAYERS" by simp
    from False have t: "MAX_PLAYERS - index = Suc (MAX_PLAYERS - Suc index)" by simp
    from Cons.IH [OF d lt] False a ms show ?thesis
      by (simp add: Let_def t)
  qed
qed

lemma promoteWaiters_exact:
  "distinct (map fst allPlayers @ map fst ws) \<Longrightarrow> distinct (map fst rem @ map fst ws) \<Longrightarrow>
   promoteWaiters ws (allPlayers, index, rem)
     = (allPlayers @ map (\<lambda>(k, (i, w)). (i, promote k w))
                         (enumerate index (take (MAX_PLAYERS - index) ws)),
        index + min (MAX_PLAYERS - index) (length ws),
        rem @ drop (MAX_PLAYERS - index) ws)"
proof (induction ws arbitrary: allPlayers index rem)
  case Nil
  then show ?case by simp
next
  case (Cons a ws)
  obtain i w where a: "a = (i, w)" by (cases a)
  show ?case
  proof (cases "index < MAX_PLAYERS")
    case True
    from Cons.prems a have new: "i \<notin> set (map fst allPlayers)" by auto
    then have ms: "mapSet i (promote index w) allPlayers = allPlayers @ [(i, promote index w)]"
      by (rule mapSet_new)
    from Cons.prems a have d: "distinct (map fst (allPlayers @ [(i, promote index w)]) @ map fst ws)"
      "distinct (map fst rem @ map fst ws)" by auto
    from True have t: "MAX_PLAYERS - index = Suc (MAX_PLAYERS - Suc index)" by simp
    from Cons.IH [OF d] True a ms show ?thesis by (simp add: t)
  next
    case False
    from Cons.prems a have new: "i \<notin> set (map fst rem)" by auto
    then have ms: "mapSet i w rem = rem @ [(i, w)]" by (rule mapSet_new)
    from Cons.prems a have d: "distinct (map fst allPlayers @ map fst ws)"
      "distinct (map fst (rem @ [(i, w)]) @ map fst ws)" by auto
    from False have z: "MAX_PLAYERS - index = 0" by simp
    from Cons.IH [OF d] False a ms show ?thesis by (simp add: z)
  qed
qed

lemma promoted_keys:
  "map fst (map (\<lambda>(k, (i, w)). (i, promote k w)) (enumerate n ws)) = map fst ws"
  by (induction ws arbitrary: n) (simp_all add: split_beta)

lemma distinct_take_append:
  "distinct (xs @ ys) \<Longrightarrow> distinct (take n xs @ ys)"
  by (auto simp: distinct_take dest: in_set_takeD)

lemma returnToLobby_exact:
  assumes "distinct (map fst (players s) @ map fst (waitingRoom s))"
  shows "state (fst (returnToLobby s)) = LOBBY
    \<and> map fst (players (fst (returnToLobby s)))
        = map fst (take 5 (players s))
          @ map fst (take (5 - min 5 (length (players s))) (waitingRoom s))
    \<and> drop (min 5 (length (players s))) (players (fst (returnToLobby s)))
        = map (\<lambda>(k, (i, w)). (i, promote k w))
            (enumerate (min 5 (length (players s)))
               (take (5 - min 5 (length (players s))) (waitingRoom s)))
    \<and> waitingRoom (fst (returnToLobby s))
        = drop (5 - min 5 (length (players s))) (waitingRoom s)"
proof -
  let ?n = "min 5 (length (players s))"
  obtain kept index where c: "copyPlayers (players s) ([], 0) = (kept, index)"
    by (cases "copyPlayers (players s) ([], 0)") auto
  from assms have d0: "distinct (map fst ([] :: (pid \<times> player) list) @ map fst (players s))" by simp
  from copyPlayers_exact [OF d0, of 0] c
  have k: "map fst kept = map fst (take 5 (players s))" and ix: "index = ?n"
    by (simp_all add: MAX_PLAYERS_def)
  from k have lk: "length kept = ?n" by (metis length_map length_take min.commute)
  from assms have d1: "distinct (map fst kept @ map fst (waitingRoom s))"
    unfolding k take_map [symmetric] by (rule distinct_take_append)
  from assms have d2: "distinct (map fst ([] :: (pid \<times> waiter) list) @ map fst (waitingRoom s))" by simp
  note p = promoteWaiters_exact [OF d1 d2, of index, unfolded ix MAX_PLAYERS_def]
  have st: "state (fst (returnToLobby s)) = LOBBY"
    by (simp add: returnToLobby_def Let_def split_beta)
  have pl: "players (fst (returnToLobby s))
      = kept @ map (\<lambda>(k, (i, w)). (i, promote k w)) (enumerate ?n (take (5 - ?n) (waitingRoom s)))"
    and wr: "waitingRoom (fst (returnToLobby s)) = drop (5 - ?n) (waitingRoom s)"
    using c p by (simp_all add: returnToLobby_def Let_def ix)
  show ?thesis
    using st pl wr k lk by (simp add: promoted_keys del: map_map)
qed


lemma setX_keys: "map fst (setX i x ps) = map fst ps"
  by (induction ps) (auto simp: setX_def)

lemma placePlayers_keys: "map fst (placePlayers n i ps) = map fst ps"
  by (induction ps arbitrary: i) auto

lemma placePlayers_keyset: "fst ` set (placePlayers n i ps) = fst ` set ps"
  using placePlayers_keys [of n i ps] by (metis set_map)

lemma filter_keys_subset: "set (map fst (filter P ps)) \<subseteq> set (map fst ps)"
  by auto

lemma joinCase_keys:
  "set (map fst (players (fst (joinCase i nm u h s))))
     \<subseteq> set (map fst (players s)) \<union> (if mapHas i (waitingRoom s) then {} else {i})"
proof -
  have w: "players (fst (addToWaitingRoom i n' h' u' s)) = players s" for n' h' u'
    by (simp add: addToWaitingRoom_result)
  have l: "set (map fst (players (fst (addPlayerToLobby i n' h' u' s))))
             \<subseteq> insert i (set (map fst (players s)))" for n' h' u'
  proof (cases "length (players s) < MAX_PLAYERS")
    case True
    from addPlayerToLobby_open [OF True, of i n' h' u'] show ?thesis
      by (auto simp: mapSet_keys)
  next
    case False
    then show ?thesis by (simp add: addPlayerToLobby_full w) blast
  qed
  show ?thesis using w l by (auto simp: joinCase_def Let_def)
qed

lemma movePath_keys:
  "set (map fst (players (fst (movePath i x now rnd dead s)))) \<subseteq> set (map fst (players s))"
proof (cases x)
  case None
  then show ?thesis by (simp add: movePath_def)
next
  case (Some v)
  let ?s1 = "s\<lparr>players := setX i (clampX v) (players s)\<rparr>"
  have "map fst (players (fst (advancePhysics rnd (stepDt now ?s1) ?s1))) = map fst (players s)"
    by (simp add: advancePhysics_roster setX_keys)
  then have k: "fst ` set (players (fst (advancePhysics rnd (stepDt now ?s1) ?s1))) = fst ` set (players s)"
    by (metis set_map)
  show ?thesis
    using Some k
    by (auto simp: movePath_def Let_def split_beta endGame_frame broadcastGameState_def)
qed

lemma keys_filter:
  "map fst (filter (\<lambda>(k, v). P k) m) = filter P (map fst m)"
  by (induction m) auto

lemma distinct_filters:
  "distinct (xs @ ys) \<Longrightarrow> distinct (filter P xs @ filter Q ys)"
  by auto

lemma ids_filtered:
  assumes "distinct (map fst ps @ map fst ws)"
  shows "distinct (map fst (filter (\<lambda>(k, v). P k) ps) @ map fst (filter (\<lambda>(k, v). Q k) ws))"
  unfolding keys_filter using assms by (rule distinct_filters)

lemma movePath_ids:
  "(map fst (players (fst (movePath i x now rnd dead s))) = map fst (players s)
      \<and> waitingRoom (fst (movePath i x now rnd dead s)) = waitingRoom s)
   \<or> (map fst (players (fst (movePath i x now rnd dead s)))
        = map fst (filter (\<lambda>(k, p). k \<notin> dead) (players s))
      \<and> waitingRoom (fst (movePath i x now rnd dead s))
        = filter (\<lambda>(k, w). k \<notin> dead) (waitingRoom s))"
proof (cases x)
  case None
  then show ?thesis by (simp add: movePath_def)
next
  case (Some v)
  let ?s1 = "s\<lparr>players := setX i (clampX v) (players s)\<rparr>"
  obtain s2 caught where a: "advancePhysics rnd (stepDt now s) ?s1 = (s2, caught)"
    by (cases "advancePhysics rnd (stepDt now s) ?s1") auto
  from advancePhysics_frame [OF a] have w: "waitingRoom s2 = waitingRoom s" by simp
  from advancePhysics_roster [of rnd "stepDt now s" ?s1] a
  have k: "map fst (players s2) = map fst (players s)" by (simp add: setX_keys)
  then have kf: "map fst (filter (\<lambda>(k, p). k \<notin> dead) (players s2))
      = map fst (filter (\<lambda>(k, p). k \<notin> dead) (players s))"
    by (simp add: keys_filter)
  show ?thesis
    using Some a w k kf
    by (simp add: movePath_def Let_def split_beta stepDt_setX endGame_frame
        broadcastGameState_def)
qed

lemma handleAlarm_ids:
  assumes "state s = PLAYING" "players s \<noteq> []"
  shows "(map fst (players (fst (handleAlarm now rnd dead s))) = map fst (players s)
      \<and> waitingRoom (fst (handleAlarm now rnd dead s)) = waitingRoom s)
   \<or> (map fst (players (fst (handleAlarm now rnd dead s)))
        = map fst (filter (\<lambda>(k, p). k \<notin> dead) (players s))
      \<and> waitingRoom (fst (handleAlarm now rnd dead s))
        = filter (\<lambda>(k, w). k \<notin> dead) (waitingRoom s))"
proof -
  obtain s2 caught where a: "advancePhysics rnd (stepDt now s) s = (s2, caught)"
    by (cases "advancePhysics rnd (stepDt now s) s") auto
  from advancePhysics_frame [OF a] have w: "waitingRoom s2 = waitingRoom s" by simp
  from advancePhysics_roster [of rnd "stepDt now s" s] a
  have k: "map fst (players s2) = map fst (players s)" by simp
  then have kf: "map fst (filter (\<lambda>(k, p). k \<notin> dead) (players s2))
      = map fst (filter (\<lambda>(k, p). k \<notin> dead) (players s))"
    by (simp add: keys_filter)
  show ?thesis
    using assms a w k kf
    by (simp add: handleAlarm_def Let_def split_beta endGame_frame broadcastGameState_def)
qed

lemma returnToLobby_distinct:
  assumes "distinct (map fst (players s) @ map fst (waitingRoom s))"
  shows "distinct (map fst (players (fst (returnToLobby s)))
                   @ map fst (waitingRoom (fst (returnToLobby s))))"
proof -
  let ?n = "5 - min 5 (length (players s))"
  from returnToLobby_exact [OF assms]
  have p: "map fst (players (fst (returnToLobby s)))
        = map fst (take 5 (players s)) @ map fst (take ?n (waitingRoom s))"
    and w: "waitingRoom (fst (returnToLobby s)) = drop ?n (waitingRoom s)"
    by blast+
  have "map fst (take ?n (waitingRoom s)) @ map fst (drop ?n (waitingRoom s))
          = map fst (waitingRoom s)"
    by (simp add: map_append [symmetric] del: map_append)
  moreover from assms have "distinct (take 5 (map fst (players s)) @ map fst (waitingRoom s))"
    by (rule distinct_take_append)
  ultimately show ?thesis unfolding p w by (simp add: take_map)
qed

lemma joinCase_distinct:
  assumes "distinct (map fst (players s) @ map fst (waitingRoom s))"
  shows "distinct (map fst (players (fst (joinCase i nameValue rawUserId rawHat s)))
                   @ map fst (waitingRoom (fst (joinCase i nameValue rawUserId rawHat s))))"
proof (cases "mapHas i (players s) \<or> mapHas i (waitingRoom s)
      \<or> \<not> isNameClean (displayName nameValue)")
  case True
  then have "fst (joinCase i nameValue rawUserId rawHat s) = s"
    by (auto simp: joinCase_def Let_def)
  with assms show ?thesis by simp
next
  case False
  then have new: "i \<notin> set (map fst (players s))" "i \<notin> set (map fst (waitingRoom s))"
    by (simp_all add: mapHas_def)
  have w: "distinct (map fst (players (fst (addToWaitingRoom i nm h u s)))
                   @ map fst (waitingRoom (fst (addToWaitingRoom i nm h u s))))" for nm h u
    using assms new by (simp add: addToWaitingRoom_result mapSet_keys)
  have l: "distinct (map fst (players (fst (addPlayerToLobby i nm h u s)))
                   @ map fst (waitingRoom (fst (addPlayerToLobby i nm h u s))))" for nm h u
  proof (cases "length (players s) < MAX_PLAYERS")
    case True
    from addPlayerToLobby_open [OF True, of i nm h u] assms new show ?thesis
      by (simp add: mapSet_keys)
  next
    case False
    then show ?thesis using w by (simp add: addPlayerToLobby_full)
  qed
  from False w l show ?thesis by (simp add: joinCase_def Let_def)
qed

lemma movePath_distinct:
  assumes "distinct (map fst (players s) @ map fst (waitingRoom s))"
  shows "distinct (map fst (players (fst (movePath i x now rnd dead s)))
                   @ map fst (waitingRoom (fst (movePath i x now rnd dead s))))"
  using movePath_ids [of i x now rnd dead s]
proof (elim disjE conjE)
  assume a: "map fst (players (fst (movePath i x now rnd dead s))) = map fst (players s)"
    "waitingRoom (fst (movePath i x now rnd dead s)) = waitingRoom s"
  show ?thesis unfolding a by (rule assms)
next
  assume a: "map fst (players (fst (movePath i x now rnd dead s)))
        = map fst (filter (\<lambda>(k, p). k \<notin> dead) (players s))"
    "waitingRoom (fst (movePath i x now rnd dead s))
        = filter (\<lambda>(k, w). k \<notin> dead) (waitingRoom s)"
  show ?thesis unfolding a by (rule ids_filtered [OF assms])
qed

lemma handleClose_distinct:
  assumes "distinct (map fst (players s) @ map fst (waitingRoom s))"
  shows "distinct (map fst (players (fst (handleClose i s)))
                   @ map fst (waitingRoom (fst (handleClose i s))))"
proof -
  let ?s1 = "s\<lparr>players := mapDelete i (players s), waitingRoom := mapDelete i (waitingRoom s)\<rparr>"
  from ids_filtered [OF assms, of "\<lambda>k. k \<noteq> i" "\<lambda>k. k \<noteq> i"]
  have d: "distinct (map fst (players ?s1) @ map fst (waitingRoom ?s1))"
    by (simp add: mapDelete_def)
  show ?thesis
  proof (cases "length (players ?s1) = 0 \<and> state ?s1 \<noteq> LOBBY")
    case True
    then have "fst (handleClose i s) = fst (returnToLobby ?s1)"
      by (simp add: handleClose_def Let_def split_beta)
    then show ?thesis by (simp only: returnToLobby_distinct [OF d])
  next
    case False
    then have "fst (handleClose i s) = ?s1"
      by (auto simp: handleClose_def Let_def split_beta)
    then show ?thesis by (simp only: d)
  qed
qed

lemma handleAlarm_distinct:
  assumes "distinct (map fst (players s) @ map fst (waitingRoom s))"
  shows "distinct (map fst (players (fst (handleAlarm now rnd dead s)))
                   @ map fst (waitingRoom (fst (handleAlarm now rnd dead s))))"
proof (cases "state s")
  case LOBBY
  with assms show ?thesis by (simp add: handleAlarm_def startCountdown_def)
next
  case COUNTDOWN
  with assms show ?thesis
    by (simp add: handleAlarm_def Let_def startPlaying_def placePlayers_keys
        placePlayers_keyset)
next
  case PLAYING
  show ?thesis
  proof (cases "players s = []")
    case True
    with PLAYING have "handleAlarm now rnd dead s = returnToLobby s"
      by (simp add: handleAlarm_def)
    then show ?thesis by (simp only: returnToLobby_distinct [OF assms])
  next
    case False
    from handleAlarm_ids [OF PLAYING False, of now rnd dead] show ?thesis
    proof (elim disjE conjE)
      assume a: "map fst (players (fst (handleAlarm now rnd dead s))) = map fst (players s)"
        "waitingRoom (fst (handleAlarm now rnd dead s)) = waitingRoom s"
      show ?thesis unfolding a by (rule assms)
    next
      assume a: "map fst (players (fst (handleAlarm now rnd dead s)))
            = map fst (filter (\<lambda>(k, p). k \<notin> dead) (players s))"
        "waitingRoom (fst (handleAlarm now rnd dead s))
            = filter (\<lambda>(k, w). k \<notin> dead) (waitingRoom s)"
      show ?thesis unfolding a by (rule ids_filtered [OF assms])
    qed
  qed
next
  case GAME_OVER
  then have "handleAlarm now rnd dead s = returnToLobby s"
    by (simp add: handleAlarm_def)
  then show ?thesis by (simp only: returnToLobby_distinct [OF assms])
qed

lemma reachable_distinct:
  "reachable s \<Longrightarrow> distinct (map fst (players s) @ map fst (waitingRoom s))"
proof (induction rule: reachable.induct)
  case init
  show ?case by (simp add: initialRoom_def)
next
  case (step s e)
  then show ?case
    by (cases e)
      (simp_all add: handleJoin_def handleMove_def joinCase_distinct movePath_distinct
        handleClose_distinct handleAlarm_distinct del: distinct_append)
qed

lemma handleClose_stays:
  "\<not> (state s \<noteq> LOBBY \<and> mapDelete i (players s) = []) \<Longrightarrow>
   set (map fst (players (fst (handleClose i s)))) \<subseteq> set (map fst (players s))"
  by (auto simp: handleClose_def Let_def mapDelete_def)

lemma handleClose_returns:
  "state s \<noteq> LOBBY \<Longrightarrow> mapDelete i (players s) = [] \<Longrightarrow>
   handleClose i s
     = returnToLobby (s\<lparr>players := mapDelete i (players s),
                          waitingRoom := mapDelete i (waitingRoom s)\<rparr>)"
  by (simp add: handleClose_def Let_def split_beta)

lemma handleAlarm_stays:
  assumes "\<not> (state s = GAME_OVER \<or> state s = PLAYING \<and> players s = [])"
  shows "set (map fst (players (fst (handleAlarm now rnd dead s)))) \<subseteq> set (map fst (players s))"
proof (cases "state s")
  case LOBBY
  then show ?thesis by (simp add: handleAlarm_def startCountdown_def)
next
  case COUNTDOWN
  then show ?thesis
    by (simp add: handleAlarm_def Let_def startPlaying_def placePlayers_keyset)
next
  case PLAYING
  with assms have ne: "players s \<noteq> []" by simp
  from handleAlarm_ids [OF PLAYING ne, of now rnd dead] show ?thesis
  proof (elim disjE conjE)
    assume "map fst (players (fst (handleAlarm now rnd dead s))) = map fst (players s)"
    then show ?thesis by (simp only: subset_refl)
  next
    assume "map fst (players (fst (handleAlarm now rnd dead s)))
            = map fst (filter (\<lambda>(k, p). k \<notin> dead) (players s))"
    then show ?thesis by (simp only: filter_keys_subset)
  qed
next
  case GAME_OVER
  with assms show ?thesis by simp
qed

lemma returnToLobby_state: "state (fst (returnToLobby s)) = LOBBY"
  by (simp add: returnToLobby_def Let_def split_beta)

text \<open>
  Claim C5, as stated, fails: the claim has promotion happen only at the
  \<open>GAME_OVER\<close> to \<open>LOBBY\<close> transition. In \<open>leaverRoom\<close> the state is \<open>PLAYING\<close>; when the
  only active player disconnects, \<^verbatim>\<open>webSocketClose\<close> calls \<^verbatim>\<open>_returnToLobby\<close>, and the
  waiting connection becomes an active player at the \<open>PLAYING\<close> to \<open>LOBBY\<close> transition.
\<close>

theorem promotion_counterexample:
  "state leaverRoom = PLAYING
   \<and> map fst (players leaverRoom) = [4]
   \<and> map fst (waitingRoom leaverRoom) = [6]
   \<and> state (fst (handle (Close 4) leaverRoom)) = LOBBY
   \<and> map fst (players (fst (handle (Close 4) leaverRoom))) = [6]
   \<and> waitingRoom (fst (handle (Close 4) leaverRoom)) = []"
  by (simp add: leaverRoom_def initialRoom_def handleClose_def mapDelete_def Let_def
      returnToLobby_def MAX_PLAYERS_def mkWaiter_def mkPlayer_def)

text \<open>
  Claim C5, amended. In every reachable room the ids of the roster and of the waiting
  room are distinct. In a room whose ids are distinct, \<^verbatim>\<open>_returnToLobby\<close> keeps the
  surviving players (at most 5), appends the first waiters in join order, as many as
  the remaining capacity (5 minus the surviving players) allows, each built by
  \<open>promote\<close> from its waiting entry, and leaves the other waiters queued in their order.
  A waiter can become a player only in a handler call that runs \<^verbatim>\<open>_returnToLobby\<close>.
  These calls, all of which end in \<open>LOBBY\<close> from another state, are:

  \<^item> the alarm in \<open>GAME_OVER\<close>;
  \<^item> the fallback alarm in \<open>PLAYING\<close> that finds the roster empty;
  \<^item> the close of any connection (an active player, a waiter or one that never joined)
    outside \<open>LOBBY\<close> after which the roster is empty, whether that close removed the last
    player or the roster had been emptied before, by sends that failed.

  In the first two the handler is \<^verbatim>\<open>_returnToLobby\<close> on the room as it is; in the third
  it is \<^verbatim>\<open>_returnToLobby\<close> on the room without the closed connection, whose ids are
  distinct again. No other handler call makes a waiter a player.
\<close>

theorem fifo_promotion:
  "(reachable s \<longrightarrow> distinct (map fst (players s) @ map fst (waitingRoom s)))
   \<and> (distinct (map fst (players s) @ map fst (waitingRoom s))
      \<longrightarrow> state (fst (returnToLobby s)) = LOBBY
        \<and> map fst (players (fst (returnToLobby s)))
            = map fst (take 5 (players s))
              @ map fst (take (5 - min 5 (length (players s))) (waitingRoom s))
        \<and> drop (min 5 (length (players s))) (players (fst (returnToLobby s)))
            = map (\<lambda>(k, (i, w)). (i, promote k w))
                (enumerate (min 5 (length (players s)))
                   (take (5 - min 5 (length (players s))) (waitingRoom s)))
        \<and> waitingRoom (fst (returnToLobby s))
            = drop (5 - min 5 (length (players s))) (waitingRoom s)
        \<and> (j \<in> set (map fst (waitingRoom s)) \<and> j \<in> set (map fst (players (fst (handle e s))))
            \<longrightarrow> state s \<noteq> LOBBY \<and> state (fst (handle e s)) = LOBBY
                \<and> ((\<exists>i. e = Close i \<and> mapDelete i (players s) = [])
                    \<or> (\<exists>now rnd dead. e = Alarm now rnd dead
                          \<and> (state s = GAME_OVER \<or> state s = PLAYING \<and> players s = []))))
        \<and> distinct (map fst (mapDelete i (players s)) @ map fst (mapDelete i (waitingRoom s))))
   \<and> (state s \<noteq> LOBBY \<and> mapDelete i (players s) = []
      \<longrightarrow> handle (Close i) s
            = returnToLobby (s\<lparr>players := mapDelete i (players s),
                                 waitingRoom := mapDelete i (waitingRoom s)\<rparr>))
   \<and> (state s = GAME_OVER \<or> state s = PLAYING \<and> players s = []
      \<longrightarrow> handle (Alarm now rnd dead) s = returnToLobby s)"
proof -
  have a: "reachable s \<longrightarrow> distinct (map fst (players s) @ map fst (waitingRoom s))"
    by (simp add: reachable_distinct del: distinct_append)
  have c: "state s \<noteq> LOBBY \<and> mapDelete i (players s) = []
      \<longrightarrow> handle (Close i) s
            = returnToLobby (s\<lparr>players := mapDelete i (players s),
                                 waitingRoom := mapDelete i (waitingRoom s)\<rparr>)"
    by (simp add: handleClose_returns)
  have d: "state s = GAME_OVER \<or> state s = PLAYING \<and> players s = []
      \<longrightarrow> handle (Alarm now rnd dead) s = returnToLobby s"
    by (auto simp: handleAlarm_def)
  have b: "state (fst (returnToLobby s)) = LOBBY
        \<and> map fst (players (fst (returnToLobby s)))
            = map fst (take 5 (players s))
              @ map fst (take (5 - min 5 (length (players s))) (waitingRoom s))
        \<and> drop (min 5 (length (players s))) (players (fst (returnToLobby s)))
            = map (\<lambda>(k, (i, w)). (i, promote k w))
                (enumerate (min 5 (length (players s)))
                   (take (5 - min 5 (length (players s))) (waitingRoom s)))
        \<and> waitingRoom (fst (returnToLobby s))
            = drop (5 - min 5 (length (players s))) (waitingRoom s)
        \<and> (j \<in> set (map fst (waitingRoom s)) \<and> j \<in> set (map fst (players (fst (handle e s))))
            \<longrightarrow> state s \<noteq> LOBBY \<and> state (fst (handle e s)) = LOBBY
                \<and> ((\<exists>i. e = Close i \<and> mapDelete i (players s) = [])
                    \<or> (\<exists>now rnd dead. e = Alarm now rnd dead
                          \<and> (state s = GAME_OVER \<or> state s = PLAYING \<and> players s = []))))
        \<and> distinct (map fst (mapDelete i (players s)) @ map fst (mapDelete i (waitingRoom s)))"
    if dist: "distinct (map fst (players s) @ map fst (waitingRoom s))"
  proof -
    from dist have dis: "j \<in> set (map fst (waitingRoom s)) \<Longrightarrow> j \<notin> set (map fst (players s))"
      by auto
    have only: "state s \<noteq> LOBBY \<and> state (fst (handle e s)) = LOBBY
                \<and> ((\<exists>i. e = Close i \<and> mapDelete i (players s) = [])
                    \<or> (\<exists>now rnd dead. e = Alarm now rnd dead
                          \<and> (state s = GAME_OVER \<or> state s = PLAYING \<and> players s = [])))"
      if j: "j \<in> set (map fst (waitingRoom s))"
        and p: "j \<in> set (map fst (players (fst (handle e s))))"
    proof (cases e)
      case (Join len k nm u h)
      from joinCase_keys [of k nm u h s] p Join dis [OF j] j
      have False by (auto simp: handleJoin_def mapHas_def split: if_splits)
      then show ?thesis ..
    next
      case (Move len k x now' rnd' dead')
      from movePath_keys [of k x now' rnd' dead' s] p Move dis [OF j]
      have False by (auto simp: handleMove_def split: if_splits)
      then show ?thesis ..
    next
      case (Close k)
      have r: "state s \<noteq> LOBBY \<and> mapDelete k (players s) = []"
      proof (rule ccontr)
        assume "\<not> (state s \<noteq> LOBBY \<and> mapDelete k (players s) = [])"
        from handleClose_stays [OF this] p Close dis [OF j] show False by auto
      qed
      then have "handleClose k s
          = returnToLobby (s\<lparr>players := mapDelete k (players s),
                               waitingRoom := mapDelete k (waitingRoom s)\<rparr>)"
        by (simp add: handleClose_returns)
      with r Close show ?thesis by (simp add: returnToLobby_state)
    next
      case (Alarm now' rnd' dead')
      have r: "state s = GAME_OVER \<or> state s = PLAYING \<and> players s = []"
      proof (rule ccontr)
        assume "\<not> (state s = GAME_OVER \<or> state s = PLAYING \<and> players s = [])"
        from handleAlarm_stays [OF this, of now' rnd' dead'] p Alarm dis [OF j]
        show False by auto
      qed
      then have "handleAlarm now' rnd' dead' s = returnToLobby s"
        by (auto simp: handleAlarm_def)
      with r Alarm show ?thesis by (auto simp: returnToLobby_state)
    qed
    from ids_filtered [OF dist, of "\<lambda>k. k \<noteq> i" "\<lambda>k. k \<noteq> i"]
    have dd: "distinct (map fst (mapDelete i (players s)) @ map fst (mapDelete i (waitingRoom s)))"
      by (simp add: mapDelete_def)
    from returnToLobby_exact [OF dist] only dd show ?thesis by blast
  qed
  from a b c d show ?thesis by blast
qed

lemma queueRoom_step:
  "advancePhysics noRandom MAX_PHYSICS_DT queueRoom
     = (queueRoom\<lparr>timeLeft := 298 / 10, coinSpawnAccumulator := 2 / 10\<rparr>, [])"
proof -
  have sp: "spawnPhase noRandom MAX_PHYSICS_DT queueRoom
     = queueRoom\<lparr>timeLeft := 298 / 10, coinSpawnAccumulator := 2 / 10\<rparr>"
    by (simp add: spawnPhase_def queueRoom_def leaverRoom_def initialRoom_def Let_def
        MAX_PHYSICS_DT_def spawnLoop_idle COIN_SPAWN_INTERVAL_def)
  have "coinLoop MAX_PHYSICS_DT (coins (spawnPhase noRandom MAX_PHYSICS_DT queueRoom))
           (players queueRoom) []
        = ([], players queueRoom, [])"
    unfolding sp by (simp add: queueRoom_def leaverRoom_def initialRoom_def)
  from advancePhysics_unfold [OF this, unfolded sp] show ?thesis
    by (simp add: queueRoom_def leaverRoom_def initialRoom_def)
qed

lemma strandedRoom_eq:
  "strandedRoom
     = queueRoom\<lparr>timeLeft := 298 / 10, coinSpawnAccumulator := 2 / 10, lastPhysicsTime := 1200,
         players := [], pendingCollected := [], lastBroadcastTime := 1200\<rparr>"
proof -
  have dt: "stepDt 1200 queueRoom = MAX_PHYSICS_DT"
    by (simp add: stepDt_def queueRoom_def leaverRoom_def initialRoom_def MAX_PHYSICS_DT_def)
  have p: "state queueRoom = PLAYING" "players queueRoom \<noteq> []"
    by (simp_all add: queueRoom_def leaverRoom_def initialRoom_def)
  show ?thesis
    unfolding strandedRoom_def using p
    by (simp add: handleAlarm_def dt queueRoom_step Let_def broadcastGameState_def)
      (simp add: queueRoom_def leaverRoom_def initialRoom_def)
qed

theorem fifo_promotion_witness:
  "reachable fullRoom
   \<and> distinct (map fst (players fullRoom) @ map fst (waitingRoom fullRoom))
   \<and> distinct (map fst (players overRoom) @ map fst (waitingRoom overRoom))
   \<and> state overRoom = GAME_OVER
   \<and> map fst (waitingRoom overRoom) = [21, 22, 23]
   \<and> handle (Alarm 0 noRandom {}) overRoom = returnToLobby overRoom
   \<and> state (fst (returnToLobby overRoom)) = LOBBY
   \<and> map fst (players (fst (returnToLobby overRoom))) = [11, 12, 13, 14, 21]
   \<and> map fst (waitingRoom (fst (returnToLobby overRoom))) = [22, 23]
   \<and> 21 \<in> set (map fst (waitingRoom overRoom))
   \<and> 21 \<in> set (map fst (players (fst (handle (Alarm 0 noRandom {}) overRoom))))
   \<and> state overRoom \<noteq> LOBBY
   \<and> state queueRoom = PLAYING \<and> map fst (players queueRoom) = [4]
   \<and> strandedRoom = fst (handle (Alarm 1200 noRandom {4}) queueRoom)
   \<and> state strandedRoom \<noteq> LOBBY \<and> players strandedRoom = []
   \<and> map fst (waitingRoom strandedRoom) = [6, 7]
   \<and> mapDelete 6 (players strandedRoom) = []
   \<and> handle (Close 6) strandedRoom
       = returnToLobby (strandedRoom\<lparr>players := mapDelete 6 (players strandedRoom),
                                      waitingRoom := mapDelete 6 (waitingRoom strandedRoom)\<rparr>)
   \<and> state (fst (handle (Close 6) strandedRoom)) = LOBBY
   \<and> map fst (players (fst (handle (Close 6) strandedRoom))) = [7]
   \<and> waitingRoom (fst (handle (Close 6) strandedRoom)) = []"
proof -
  have r: "reachable fullRoom"
    unfolding fullRoom_def by (rule reachable_run) (rule reachable.init)
  with fifo_promotion [of fullRoom]
  have rd: "distinct (map fst (players fullRoom) @ map fst (waitingRoom fullRoom))" by blast
  have d: "distinct (map fst (players overRoom) @ map fst (waitingRoom overRoom))"
    by (simp add: overRoom_def initialRoom_def)
  have h: "state overRoom = GAME_OVER" "map fst (waitingRoom overRoom) = [21, 22, 23]"
    "map fst (take 5 (players overRoom)) = [11, 12, 13, 14]"
    "5 - min 5 (length (players overRoom)) = 1"
    by (simp_all add: overRoom_def initialRoom_def)
  note f = fifo_promotion [of overRoom 21 "Alarm 0 noRandom {}" 0 0 noRandom "{}"]
  from f h have a: "handle (Alarm 0 noRandom {}) overRoom = returnToLobby overRoom" by blast
  from f d have "map fst (players (fst (returnToLobby overRoom)))
        = map fst (take 5 (players overRoom))
          @ map fst (take (5 - min 5 (length (players overRoom))) (waitingRoom overRoom))"
    and "waitingRoom (fst (returnToLobby overRoom))
        = drop (5 - min 5 (length (players overRoom))) (waitingRoom overRoom)"
    and st: "state (fst (returnToLobby overRoom)) = LOBBY"
    by blast+
  then have k: "map fst (players (fst (returnToLobby overRoom))) = [11, 12, 13, 14, 21]"
    and w: "map fst (waitingRoom (fst (returnToLobby overRoom))) = [22, 23]"
    unfolding h(3) h(4) by (simp_all add: overRoom_def initialRoom_def)
  have m: "21 \<in> set (map fst (waitingRoom overRoom))" unfolding h(2) by simp
  have p: "21 \<in> set (map fst (players (fst (handle (Alarm 0 noRandom {}) overRoom))))"
    unfolding a k by simp
  from f d m p have nl: "state overRoom \<noteq> LOBBY" by blast
  have q: "state queueRoom = PLAYING" "map fst (players queueRoom) = [4]"
    by (simp_all add: queueRoom_def leaverRoom_def initialRoom_def)
  have sr: "strandedRoom = fst (handle (Alarm 1200 noRandom {4}) queueRoom)"
    by (simp add: strandedRoom_def)
  have s: "state strandedRoom \<noteq> LOBBY" "players strandedRoom = []"
    "map fst (waitingRoom strandedRoom) = [6, 7]" "mapDelete 6 (players strandedRoom) = []"
    by (simp_all add: strandedRoom_eq queueRoom_def leaverRoom_def initialRoom_def mapDelete_def)
  let ?s1 = "strandedRoom\<lparr>players := mapDelete 6 (players strandedRoom),
                          waitingRoom := mapDelete 6 (waitingRoom strandedRoom)\<rparr>"
  from fifo_promotion [of strandedRoom 0 "Close 0" 6 0 noRandom "{}"] s
  have c: "handle (Close 6) strandedRoom = returnToLobby ?s1"
    by blast
  have d1: "distinct (map fst (players ?s1) @ map fst (waitingRoom ?s1))"
    by (simp add: strandedRoom_eq queueRoom_def leaverRoom_def initialRoom_def mapDelete_def)
  have e1: "map fst (take 5 (players ?s1)) = []" "5 - min 5 (length (players ?s1)) = 5"
    "waitingRoom ?s1 = [(7, mkWaiter ''Yan'')]"
    by (simp_all add: strandedRoom_eq queueRoom_def leaverRoom_def initialRoom_def mapDelete_def)
  from fifo_promotion [of ?s1 0 "Close 0" 0 0 noRandom "{}"] d1
  have "map fst (players (fst (returnToLobby ?s1)))
        = map fst (take 5 (players ?s1))
          @ map fst (take (5 - min 5 (length (players ?s1))) (waitingRoom ?s1))"
    and "waitingRoom (fst (returnToLobby ?s1))
        = drop (5 - min 5 (length (players ?s1))) (waitingRoom ?s1)"
    and "state (fst (returnToLobby ?s1)) = LOBBY"
    by blast+
  then have c2: "map fst (players (fst (handle (Close 6) strandedRoom))) = [7]"
    and c3: "waitingRoom (fst (handle (Close 6) strandedRoom)) = []"
    and c4: "state (fst (handle (Close 6) strandedRoom)) = LOBBY"
    unfolding c e1 by simp_all
  from r rd d h(1) h(2) a st k w m p nl q sr s c c2 c3 c4 show ?thesis by blast
qed

subsection \<open>Pending events\<close>

lemma gameStates_append: "gameStates (xs @ ys) = gameStates xs @ gameStates ys"
  by (induction xs) (auto split: option.splits)

lemma broadcastEvents_append:
  "broadcastEvents (xs @ ys) = broadcastEvents xs @ broadcastEvents ys"
  by (simp add: broadcastEvents_def gameStates_append)

lemma endGame_quiet: "gameStates (snd (endGame s)) = []"
proof -
  have "gameStates (map (\<lambda>(i, w). SendTo i (GameOver r)) ws) = []" for r
    and ws :: "(pid \<times> waiter) list"
    by (induction ws) auto
  then show ?thesis
    by (simp add: endGame_def Let_def gameStates_append)
qed

lemma broadcast_events:
  "broadcastEvents (snd (broadcastGameState dead col s)) = col
   \<and> gameStates (snd (broadcastGameState dead col s)) = [buildGameState col s]
   \<and> collected (buildGameState col s) = (if col = [] then None else Some col)"
  by (simp add: broadcastGameState_def broadcastEvents_def buildGameState_def)

lemma handleAlarm_pending:
  assumes "state s = PLAYING" "players s \<noteq> []"
  shows "(timeLeft s - stepDt now s > 0 \<longrightarrow>
            broadcastEvents (snd (handleAlarm now rnd dead s))
              = pendingCollected s @ snd (advancePhysics rnd (stepDt now s) s)
          \<and> pendingCollected (fst (handleAlarm now rnd dead s)) = []
          \<and> state (fst (handleAlarm now rnd dead s)) = PLAYING)
       \<and> (timeLeft s - stepDt now s \<le> 0 \<longrightarrow>
            gameStates (snd (handleAlarm now rnd dead s)) = []
          \<and> pendingCollected (fst (handleAlarm now rnd dead s))
              = pendingCollected s @ snd (advancePhysics rnd (stepDt now s) s)
          \<and> state (fst (handleAlarm now rnd dead s)) = GAME_OVER)"
proof -
  obtain s2 caught where a: "advancePhysics rnd (stepDt now s) s = (s2, caught)"
    by (cases "advancePhysics rnd (stepDt now s) s") auto
  note f = advancePhysics_frame [OF a]
  have be: "broadcastEvents [SetAlarm d] = []" for d
    by (simp add: broadcastEvents_def)
  have st: "state (fst (broadcastGameState dead col r)) = state r"
    "pendingCollected (fst (broadcastGameState dead col r)) = pendingCollected r" for col r
    by (simp_all add: broadcastGameState_def)
  show ?thesis
    using assms a f
    by (simp add: handleAlarm_def Let_def split_beta endGame_frame endGame_quiet
        broadcast_events be st broadcastEvents_append)
qed

lemma movePath_pending:
  assumes "state s = PLAYING" "mapHas i (players s)"
  shows "(timeLeft s - stepDt now s > 0 \<and> now - lastBroadcastTime s \<ge> BROADCAST_THROTTLE_MS \<longrightarrow>
            broadcastEvents (snd (movePath i (Some v) now rnd dead s))
              = pendingCollected s
                @ snd (advancePhysics rnd (stepDt now s) (s\<lparr>players := setX i (clampX v) (players s)\<rparr>))
          \<and> pendingCollected (fst (movePath i (Some v) now rnd dead s)) = []
          \<and> state (fst (movePath i (Some v) now rnd dead s)) = PLAYING)
       \<and> (timeLeft s - stepDt now s > 0 \<and> now - lastBroadcastTime s < BROADCAST_THROTTLE_MS \<longrightarrow>
            snd (movePath i (Some v) now rnd dead s) = []
          \<and> pendingCollected (fst (movePath i (Some v) now rnd dead s))
              = pendingCollected s
                @ snd (advancePhysics rnd (stepDt now s) (s\<lparr>players := setX i (clampX v) (players s)\<rparr>))
          \<and> state (fst (movePath i (Some v) now rnd dead s)) = PLAYING)
       \<and> (timeLeft s - stepDt now s \<le> 0 \<longrightarrow>
            gameStates (snd (movePath i (Some v) now rnd dead s)) = []
          \<and> pendingCollected (fst (movePath i (Some v) now rnd dead s))
              = pendingCollected s
                @ snd (advancePhysics rnd (stepDt now s) (s\<lparr>players := setX i (clampX v) (players s)\<rparr>))
          \<and> state (fst (movePath i (Some v) now rnd dead s)) = GAME_OVER)"
proof -
  let ?s1 = "s\<lparr>players := setX i (clampX v) (players s)\<rparr>"
  obtain s2 caught where a: "advancePhysics rnd (stepDt now s) ?s1 = (s2, caught)"
    by (cases "advancePhysics rnd (stepDt now s) ?s1") auto
  from advancePhysics_frame [OF a] have f: "timeLeft s2 = timeLeft s - stepDt now s"
    "state s2 = state s" "pendingCollected s2 = pendingCollected s"
    "lastBroadcastTime s2 = lastBroadcastTime s" by simp_all
  have st: "state (fst (broadcastGameState dead col r)) = state r"
    "pendingCollected (fst (broadcastGameState dead col r)) = pendingCollected r" for col r
    by (simp_all add: broadcastGameState_def)
  show ?thesis
    using assms a f
    by (simp add: movePath_def Let_def split_beta stepDt_setX endGame_frame endGame_quiet
        broadcast_events st)
qed

lemma startPlaying_pending:
  "pendingCollected (fst (startPlaying now s)) = [] \<and> gameStates (snd (startPlaying now s)) = []"
  by (simp add: startPlaying_def)

lemma lastCatchRoom_spawnPhase:
  "spawnPhase noRandom MAX_PHYSICS_DT lastCatchRoom
     = catchRoom\<lparr>timeLeft := - (1 / 10), coinSpawnAccumulator := 2 / 10\<rparr>"
  by (simp add: spawnPhase_def lastCatchRoom_def catchRoom_def initialRoom_def Let_def
      MAX_PHYSICS_DT_def spawnLoop_idle COIN_SPAWN_INTERVAL_def)

lemma lastCatchRoom_step:
  "advancePhysics noRandom MAX_PHYSICS_DT lastCatchRoom =
     (catchRoom\<lparr>timeLeft := - (1 / 10), coinSpawnAccumulator := 2 / 10, coins := [],
        players := [(4, mkPlayer 100 10 ''Ann''), (5, mkPlayer 110 0 ''Bob'')]\<rparr>,
      [\<lparr>playerId = 4, ex = 130, ey = 505\<rparr>])"
proof -
  have "coinLoop MAX_PHYSICS_DT (coins (spawnPhase noRandom MAX_PHYSICS_DT lastCatchRoom))
           (players lastCatchRoom) []
        = ([], [(4, mkPlayer 100 10 ''Ann''), (5, mkPlayer 110 0 ''Bob'')],
           [\<lparr>playerId = 4, ex = 130, ey = 505\<rparr>])"
    unfolding lastCatchRoom_spawnPhase
    by (simp add: lastCatchRoom_def catchRoom_def initialRoom_def lowCoin_caught del: coinLoop.simps)
  from advancePhysics_unfold [OF this] show ?thesis
    by (simp add: lastCatchRoom_spawnPhase)
qed

lemma lastCatchRoom_dt: "stepDt 1200 lastCatchRoom = MAX_PHYSICS_DT"
  by (simp add: stepDt_def lastCatchRoom_def catchRoom_def initialRoom_def MAX_PHYSICS_DT_def)

lemma step1:
  "fst (handle (Alarm 1200 noRandom {}) lastCatchRoom) = overState
   \<and> gameStates (snd (handle (Alarm 1200 noRandom {}) lastCatchRoom)) = []"
proof -
  have p: "state lastCatchRoom = PLAYING" "players lastCatchRoom \<noteq> []"
    by (simp_all add: lastCatchRoom_def catchRoom_def initialRoom_def catchRoster_def)
  have "fst (handleAlarm 1200 noRandom {} lastCatchRoom) = overState"
    using p
    by (simp add: handleAlarm_def lastCatchRoom_dt lastCatchRoom_step Let_def endGame_def)
      (simp add: overState_def catchRoom_def initialRoom_def)
  moreover have "gameStates (snd (handleAlarm 1200 noRandom {} lastCatchRoom)) = []"
    using p
    by (simp add: handleAlarm_def lastCatchRoom_dt lastCatchRoom_step Let_def endGame_quiet)
  ultimately show ?thesis by simp
qed

lemma run_Cons:
  "run (e # es) s = (fst (run es (fst (handle e s))), snd (handle e s) @ snd (run es (fst (handle e s))))"
  by (simp add: split_beta)

lemma mapSet_nonempty: "mapSet k v m \<noteq> []"
  by (cases m) (auto split: if_splits)

lemma copyPlayers_nonempty:
  "ps \<noteq> [] \<or> allPlayers \<noteq> [] \<Longrightarrow> fst (copyPlayers ps (allPlayers, index)) \<noteq> []"
  by (induction ps arbitrary: allPlayers index) (auto simp: Let_def mapSet_nonempty split: if_splits)

lemma promoteWaiters_nonempty:
  "allPlayers \<noteq> [] \<Longrightarrow> fst (promoteWaiters ws (allPlayers, index, rem)) \<noteq> []"
  by (induction ws arbitrary: allPlayers index rem) (auto simp: mapSet_nonempty split: if_splits)

lemma alarm_game_over:
  assumes "state s = GAME_OVER" "players s \<noteq> []"
  shows "state (fst (handleAlarm now rnd dead s)) = LOBBY
    \<and> players (fst (handleAlarm now rnd dead s)) \<noteq> []
    \<and> gameStates (snd (handleAlarm now rnd dead s)) = []"
proof -
  from assms(2) have "fst (copyPlayers (players s) ([], 0)) \<noteq> []"
    by (simp add: copyPlayers_nonempty)
  then have "fst (promoteWaiters (waitingRoom s)
      (fst (copyPlayers (players s) ([], 0)), snd (copyPlayers (players s) ([], 0)), [])) \<noteq> []"
    by (rule promoteWaiters_nonempty)
  with assms(1) show ?thesis
    by (simp add: handleAlarm_def returnToLobby_def Let_def split_beta broadcastLobbyMsg_def)
qed

lemma alarm_lobby:
  assumes "state s = LOBBY" "players s \<noteq> []"
  shows "fst (handleAlarm now rnd dead s)
       = s\<lparr>state := COUNTDOWN, countdownSeconds := COUNTDOWN_SECONDS\<rparr>
    \<and> gameStates (snd (handleAlarm now rnd dead s)) = []"
  using assms by (simp add: handleAlarm_def startCountdown_def)

lemma alarm_countdown:
  assumes "state s = COUNTDOWN" "countdownSeconds s > 1"
  shows "fst (handleAlarm now rnd dead s) = s\<lparr>countdownSeconds := countdownSeconds s - 1\<rparr>
    \<and> gameStates (snd (handleAlarm now rnd dead s)) = []"
  using assms by (simp add: handleAlarm_def Let_def)

lemma alarm_start:
  assumes "state s = COUNTDOWN" "countdownSeconds s \<le> 1"
  shows "state (fst (handleAlarm now rnd dead s)) = PLAYING
    \<and> pendingCollected (fst (handleAlarm now rnd dead s)) = []
    \<and> gameStates (snd (handleAlarm now rnd dead s)) = []"
  using assms by (simp add: handleAlarm_def Let_def startPlaying_def)

lemma after_over:
  "state (fst (run (nextRound) overState)) = PLAYING
   \<and> pendingCollected (fst (run (nextRound) overState)) = []
   \<and> gameStates (snd (run (nextRound) overState)) = []"
proof -
  define r2 where "r2 = fst (handleAlarm 6200 noRandom {} overState)"
  define r3 where "r3 = r2\<lparr>state := COUNTDOWN, countdownSeconds := COUNTDOWN_SECONDS\<rparr>"
  define r7 where "r7 = r3\<lparr>countdownSeconds := 1\<rparr>"
  have o: "state overState = GAME_OVER" "players overState \<noteq> []"
    by (simp_all add: overState_def catchRoom_def initialRoom_def)
  from alarm_game_over [OF o] have a2: "state r2 = LOBBY" "players r2 \<noteq> []"
    "gameStates (snd (handleAlarm 6200 noRandom {} overState)) = []"
    by (simp_all add: r2_def)
  from alarm_lobby [OF a2(1) a2(2)] have a3: "fst (handleAlarm 26200 noRandom {} r2) = r3"
    "gameStates (snd (handleAlarm 26200 noRandom {} r2)) = []"
    by (simp_all add: r3_def)
  have c3: "state r3 = COUNTDOWN" "countdownSeconds r3 = 5"
    by (simp_all add: r3_def COUNTDOWN_SECONDS_def)
  have cd: "fst (handleAlarm now noRandom {} (r3\<lparr>countdownSeconds := k\<rparr>))
              = r3\<lparr>countdownSeconds := k - 1\<rparr>
            \<and> gameStates (snd (handleAlarm now noRandom {} (r3\<lparr>countdownSeconds := k\<rparr>))) = []"
    if "k > 1" for k now
    using alarm_countdown [of "r3\<lparr>countdownSeconds := k\<rparr>" now noRandom "{}"] that c3 by simp
  have r35: "r3 = r3\<lparr>countdownSeconds := 5\<rparr>" using c3 by simp
  have a4: "fst (handleAlarm 27200 noRandom {} r3) = r3\<lparr>countdownSeconds := 4\<rparr>"
    "gameStates (snd (handleAlarm 27200 noRandom {} r3)) = []"
    using cd [of 5 27200] r35 by simp_all
  have a5: "fst (handleAlarm 28200 noRandom {} (r3\<lparr>countdownSeconds := 4\<rparr>)) = r3\<lparr>countdownSeconds := 3\<rparr>"
    "gameStates (snd (handleAlarm 28200 noRandom {} (r3\<lparr>countdownSeconds := 4\<rparr>))) = []"
    using cd [of 4 28200] by simp_all
  have a6: "fst (handleAlarm 29200 noRandom {} (r3\<lparr>countdownSeconds := 3\<rparr>)) = r3\<lparr>countdownSeconds := 2\<rparr>"
    "gameStates (snd (handleAlarm 29200 noRandom {} (r3\<lparr>countdownSeconds := 3\<rparr>))) = []"
    using cd [of 3 29200] by simp_all
  have a7: "fst (handleAlarm 30200 noRandom {} (r3\<lparr>countdownSeconds := 2\<rparr>)) = r7"
    "gameStates (snd (handleAlarm 30200 noRandom {} (r3\<lparr>countdownSeconds := 2\<rparr>))) = []"
    using cd [of 2 30200] by (simp_all add: r7_def)
  have c7: "state r7 = COUNTDOWN" "countdownSeconds r7 \<le> 1"
    using c3 by (simp_all add: r7_def)
  note a8 = alarm_start [OF c7, of 31200 noRandom "{}"]
  show ?thesis
    unfolding nextRound_def run_Cons handle.simps r2_def [symmetric] a3 a4 a5 a6 a7
    using a2 a3 a4 a5 a6 a7 a8 by (simp add: gameStates_append)
qed

text \<open>
  Claim C6, as stated, fails: the claim has every event of a physics step reach a
  broadcast \<^verbatim>\<open>gameState\<close>. In \<open>lastCatchRoom\<close> the alarm's step catches a coin and
  ends the round; the event is put in the pending buffer and the handler returns after
  \<^verbatim>\<open>_endGame\<close>, before the broadcast. Through the display time, the lobby and the
  countdown no \<^verbatim>\<open>gameState\<close> is sent at all, and when the next round starts the buffer
  is empty.
\<close>

theorem dropped_events_counterexample:
  "state lastCatchRoom = PLAYING
   \<and> snd (advancePhysics noRandom (stepDt 1200 lastCatchRoom) lastCatchRoom)
       = [\<lparr>playerId = 4, ex = 130, ey = 505\<rparr>]
   \<and> pendingCollected (fst (handle (Alarm 1200 noRandom {}) lastCatchRoom))
       = [\<lparr>playerId = 4, ex = 130, ey = 505\<rparr>]
   \<and> gameStates (snd (run roundEnd lastCatchRoom)) = []
   \<and> state (fst (run roundEnd lastCatchRoom)) = PLAYING
   \<and> pendingCollected (fst (run roundEnd lastCatchRoom)) = []"
proof -
  have a: "state lastCatchRoom = PLAYING"
    by (simp add: lastCatchRoom_def catchRoom_def initialRoom_def)
  have b: "snd (advancePhysics noRandom (stepDt 1200 lastCatchRoom) lastCatchRoom)
       = [\<lparr>playerId = 4, ex = 130, ey = 505\<rparr>]"
    by (simp add: lastCatchRoom_dt lastCatchRoom_step)
  have c: "pendingCollected (fst (handle (Alarm 1200 noRandom {}) lastCatchRoom))
       = [\<lparr>playerId = 4, ex = 130, ey = 505\<rparr>]"
    using step1 by (simp add: overState_def)
  have d: "run roundEnd lastCatchRoom
        = (fst (run (nextRound) overState),
           snd (handle (Alarm 1200 noRandom {}) lastCatchRoom) @ snd (run (nextRound) overState))"
    unfolding roundEnd_def run_Cons conjunct1 [OF step1] by (rule refl)
  from a b c after_over step1 show ?thesis
    unfolding d by (simp add: gameStates_append)
qed

lemma quiet_events: "gameStates out = [] \<Longrightarrow> broadcastEvents out = []"
  by (simp add: broadcastEvents_def)

lemma joinCase_quiet:
  "gameStates (snd (joinCase i nameValue rawUserId rawHat s)) = []
   \<and> pendingCollected (fst (joinCase i nameValue rawUserId rawHat s)) = pendingCollected s
   \<and> (state (fst (joinCase i nameValue rawUserId rawHat s)) = PLAYING \<longleftrightarrow> state s = PLAYING)"
  by (auto simp: joinCase_def Let_def addPlayerToLobby_def addToWaitingRoom_def
      startCountdown_def broadcastLobbyMsg_def)

lemma returnToLobby_quiet:
  "gameStates (snd (returnToLobby s)) = []
   \<and> pendingCollected (fst (returnToLobby s)) = pendingCollected s"
  by (simp add: returnToLobby_def Let_def split_beta broadcastLobbyMsg_def)

lemma handleClose_quiet:
  "gameStates (snd (handleClose i s)) = []
   \<and> pendingCollected (fst (handleClose i s)) = pendingCollected s
   \<and> (state s \<noteq> PLAYING \<longrightarrow> state (fst (handleClose i s)) \<noteq> PLAYING)"
  by (simp add: handleClose_def Let_def split_beta gameStates_append broadcastLobbyMsg_def
      returnToLobby_quiet returnToLobby_state)

lemma handleAlarm_quiet:
  assumes "\<not> (state s = PLAYING \<and> players s \<noteq> [])"
    and "\<not> (state s = COUNTDOWN \<and> countdownSeconds s - 1 \<le> 0)"
  shows "gameStates (snd (handleAlarm now rnd dead s)) = []
    \<and> pendingCollected (fst (handleAlarm now rnd dead s)) = pendingCollected s
    \<and> state (fst (handleAlarm now rnd dead s)) \<noteq> PLAYING"
  using assms
  by (cases "state s")
    (simp_all add: handleAlarm_def Let_def startCountdown_def returnToLobby_quiet
      returnToLobby_state)

lemma handleAlarm_sends:
  assumes "state s = PLAYING" "players s \<noteq> []" "timeLeft s - stepDt now s > 0"
  shows "gameStates (snd (handleAlarm now rnd dead s)) \<noteq> []"
proof -
  obtain s2 caught where a: "advancePhysics rnd (stepDt now s) s = (s2, caught)"
    by (cases "advancePhysics rnd (stepDt now s) s") auto
  from advancePhysics_frame [OF a] have t: "timeLeft s2 = timeLeft s - stepDt now s" by simp
  show ?thesis
    using assms a t
    by (simp add: handleAlarm_def Let_def split_beta broadcast_events gameStates_append)
qed

lemma movePath_sends:
  assumes "state s = PLAYING" "mapHas i (players s)" "timeLeft s - stepDt now s > 0"
    and "now - lastBroadcastTime s \<ge> BROADCAST_THROTTLE_MS"
  shows "gameStates (snd (movePath i (Some v) now rnd dead s)) \<noteq> []"
proof -
  let ?s1 = "s\<lparr>players := setX i (clampX v) (players s)\<rparr>"
  obtain s2 caught where a: "advancePhysics rnd (stepDt now s) ?s1 = (s2, caught)"
    by (cases "advancePhysics rnd (stepDt now s) ?s1") auto
  from advancePhysics_frame [OF a] have f: "timeLeft s2 = timeLeft s - stepDt now s"
    "lastBroadcastTime s2 = lastBroadcastTime s" by simp_all
  show ?thesis
    using assms a f
    by (simp add: movePath_def Let_def split_beta stepDt_setX broadcast_events)
qed

lemma handleMove_idle:
  "\<not> (len \<le> 512 \<and> state s = PLAYING \<and> mapHas i (players s)) \<or> x = None \<Longrightarrow>
   handleMove len i x now rnd dead s = (s, [])"
  by (auto simp: handleMove_def movePath_def)

lemma caughtIn_idle:
  "\<not> (len \<le> 512 \<and> state s = PLAYING \<and> mapHas i (players s)) \<or> x = None \<Longrightarrow>
   caughtIn (Move len i x now rnd dead) s = []"
  by (cases x) auto

lemma flushes_idle:
  "\<not> (len \<le> 512 \<and> state s = PLAYING \<and> mapHas i (players s)) \<or> x = None \<Longrightarrow>
   \<not> flushes (Move len i x now rnd dead) s"
  by (cases x) auto

text \<open>What one handler call does to the buffer and to the broadcasts.\<close>

lemma step_facts:
  "(\<not> startsRound e s \<longrightarrow>
      broadcastEvents (snd (handle e s)) @ pendingCollected (fst (handle e s))
        = pendingCollected s @ caughtIn e s)
   \<and> (gameStates (snd (handle e s)) \<noteq> [] \<longleftrightarrow> flushes e s)
   \<and> (flushes e s \<longrightarrow>
        state s = PLAYING \<and> state (fst (handle e s)) = PLAYING
        \<and> pendingCollected (fst (handle e s)) = []
        \<and> broadcastEvents (snd (handle e s)) = pendingCollected s @ caughtIn e s)
   \<and> (startsRound e s \<longrightarrow>
        state (fst (handle e s)) = PLAYING \<and> pendingCollected (fst (handle e s)) = []
        \<and> gameStates (snd (handle e s)) = [])
   \<and> (state s \<noteq> PLAYING \<and> \<not> startsRound e s \<longrightarrow>
        state (fst (handle e s)) \<noteq> PLAYING
        \<and> pendingCollected (fst (handle e s)) = pendingCollected s)"
proof (cases e)
  case (Join len i nameValue rawUserId rawHat)
  then show ?thesis
    using joinCase_quiet [of i nameValue rawUserId rawHat s]
    by (simp add: handleJoin_def quiet_events)
next
  case (Close i)
  then show ?thesis
    using handleClose_quiet [of i s] by (simp add: quiet_events)
next
  case (Move len i x now rnd dead)
  show ?thesis
  proof (cases "\<not> (len \<le> 512 \<and> state s = PLAYING \<and> mapHas i (players s)) \<or> x = None")
    case True
    from handleMove_idle [OF True] caughtIn_idle [OF True] flushes_idle [OF True] Move
    show ?thesis by (simp add: quiet_events)
  next
    case False
    then obtain v where x: "x = Some v" and g: "len \<le> 512" "state s = PLAYING"
      "mapHas i (players s)" by auto
    have h: "handle e s = movePath i (Some v) now rnd dead s"
      using Move x g by (simp add: handleMove_def)
    have c: "caughtIn e s
        = snd (advancePhysics rnd (stepDt now s) (s\<lparr>players := setX i (clampX v) (players s)\<rparr>))"
      using Move x g by (simp add: Let_def stepDt_setX)
    have f: "flushes e s \<longleftrightarrow> timeLeft s - stepDt now s > 0
        \<and> now - lastBroadcastTime s \<ge> BROADCAST_THROTTLE_MS"
      using Move x g by simp
    have sr: "\<not> startsRound e s" using Move by simp
    note p = movePath_pending [OF g(2) g(3), of now v rnd dead]
    consider (flush) "timeLeft s - stepDt now s > 0"
        "now - lastBroadcastTime s \<ge> BROADCAST_THROTTLE_MS"
      | (throttled) "timeLeft s - stepDt now s > 0"
        "now - lastBroadcastTime s < BROADCAST_THROTTLE_MS"
      | (over) "timeLeft s - stepDt now s \<le> 0"
      by linarith
    then show ?thesis
    proof cases
      case flush
      with p movePath_sends [OF g(2) g(3) flush, of v rnd dead] g show ?thesis
        unfolding h c f using sr by simp
    next
      case throttled
      with p g show ?thesis
        unfolding h c f using sr by (simp add: quiet_events)
    next
      case over
      with p g show ?thesis
        unfolding h c f using sr by (simp add: quiet_events)
    qed
  qed
next
  case (Alarm now rnd dead)
  show ?thesis
  proof (cases "state s = PLAYING \<and> players s \<noteq> []")
    case True
    then have g: "state s = PLAYING" "players s \<noteq> []" by simp_all
    note p = handleAlarm_pending [OF g, of now rnd dead]
    show ?thesis
    proof (cases "timeLeft s - stepDt now s > 0")
      case True
      with p handleAlarm_sends [OF g True, of rnd dead] g Alarm show ?thesis by simp
    next
      case False
      with p g Alarm show ?thesis by (simp add: quiet_events)
    qed
  next
    case np: False
    show ?thesis
    proof (cases "state s = COUNTDOWN \<and> countdownSeconds s - 1 \<le> 0")
      case True
      then have "state s = COUNTDOWN" "countdownSeconds s \<le> 1" by simp_all
      from alarm_start [OF this, of now rnd dead] True Alarm show ?thesis by simp
    next
      case False
      from handleAlarm_quiet [OF np False, of now rnd dead] np False Alarm show ?thesis
        by (auto simp: quiet_events)
    qed
  qed
qed

lemma run_snoc:
  "run (es @ [e]) s
     = (fst (handle e (fst (run es s))), snd (run es s) @ snd (handle e (fst (run es s))))"
  by (induction es arbitrary: s) (simp_all add: split_beta)

lemma caughtDuring_snoc:
  "caughtDuring (es @ [e]) s = caughtDuring es s @ caughtIn e (fst (run es s))"
  by (induction es arbitrary: s) (simp_all add: split_beta)

lemma run_conservation:
  "noRoundStart es s \<Longrightarrow>
   broadcastEvents (snd (run es s)) @ pendingCollected (fst (run es s))
     = pendingCollected s @ caughtDuring es s"
proof (induction es arbitrary: s)
  case Nil
  show ?case by (simp add: broadcastEvents_def)
next
  case (Cons e es)
  let ?s1 = "fst (handle e s)"
  from Cons.prems have n: "\<not> startsRound e s" "noRoundStart es ?s1" by simp_all
  from step_facts [of e s] n(1)
  have one: "broadcastEvents (snd (handle e s)) @ pendingCollected ?s1
        = pendingCollected s @ caughtIn e s" by blast
  have "broadcastEvents (snd (run (e # es) s)) @ pendingCollected (fst (run (e # es) s))
      = broadcastEvents (snd (handle e s))
        @ (broadcastEvents (snd (run es ?s1)) @ pendingCollected (fst (run es ?s1)))"
    by (simp add: split_beta broadcastEvents_append)
  also have "\<dots> = broadcastEvents (snd (handle e s)) @ (pendingCollected ?s1 @ caughtDuring es ?s1)"
    by (simp only: Cons.IH [OF n(2)])
  also have "\<dots> = (pendingCollected s @ caughtIn e s) @ caughtDuring es ?s1"
    by (simp only: one [symmetric] append_assoc)
  finally show ?case by simp
qed

lemma run_idle:
  "state s \<noteq> PLAYING \<Longrightarrow> noRoundStart es s \<Longrightarrow>
   state (fst (run es s)) \<noteq> PLAYING \<and> gameStates (snd (run es s)) = []
   \<and> pendingCollected (fst (run es s)) = pendingCollected s"
proof (induction es arbitrary: s)
  case Nil
  then show ?case by simp
next
  case (Cons e es)
  let ?s1 = "fst (handle e s)"
  from Cons.prems have n: "\<not> startsRound e s" "noRoundStart es ?s1" by simp_all
  from step_facts [of e s] n(1) Cons.prems(1)
  have one: "state ?s1 \<noteq> PLAYING" "pendingCollected ?s1 = pendingCollected s"
    and nf: "\<not> flushes e s" by blast+
  with step_facts [of e s] have q: "gameStates (snd (handle e s)) = []" by blast
  from Cons.IH [OF one(1) n(2)] one q show ?case
    by (simp add: split_beta gameStates_append)
qed

text \<open>
  Claim C6, amended. Over any sequence of handler calls without a round start, no event
  is lost or duplicated: the events broadcast in \<^verbatim>\<open>collected\<close> fields, in the order
  sent, followed by the events in the pending buffer are the events pending at the
  beginning followed by the events caught by the physics steps of the sequence, in
  order. A handler call sends a \<^verbatim>\<open>gameState\<close> exactly when it is, in \<open>PLAYING\<close>, a
  fallback alarm with a non-empty roster or a \<^verbatim>\<open>move\<close> (in a frame of at most 512
  characters) of an active player with a numeric \<open>x\<close> at least 50 ms after the last
  broadcast, and its step leaves \<^verbatim>\<open>timeLeft\<close> positive. Such a call broadcasts the
  whole buffer together with the events of its own step and empties the buffer, and the
  state stays \<open>PLAYING\<close>; so when a sequence without a round start ends with such a
  call, every event pending before it or caught during it has been broadcast. Nothing
  else delivers an event. In particular the events that are in the buffer when the room
  leaves \<open>PLAYING\<close>, because the step brought \<^verbatim>\<open>timeLeft\<close> to 0 or because the roster
  became empty, are never broadcast: outside \<open>PLAYING\<close> no handler call sends a
  \<^verbatim>\<open>gameState\<close>, and none changes the buffer but the countdown alarm that runs
  \<^verbatim>\<open>_startPlaying\<close>, which is the only way back to \<open>PLAYING\<close>; that call empties the
  buffer and sends no \<^verbatim>\<open>gameState\<close>.
\<close>

theorem collected_flush:
  "(noRoundStart es s \<longrightarrow>
      broadcastEvents (snd (run es s)) @ pendingCollected (fst (run es s))
        = pendingCollected s @ caughtDuring es s)
   \<and> (gameStates (snd (handle e s)) \<noteq> [] \<longleftrightarrow> flushes e s)
   \<and> (flushes e s \<longrightarrow>
        state s = PLAYING \<and> state (fst (handle e s)) = PLAYING
        \<and> pendingCollected (fst (handle e s)) = []
        \<and> broadcastEvents (snd (handle e s)) = pendingCollected s @ caughtIn e s)
   \<and> (noRoundStart es s \<and> flushes e (fst (run es s)) \<longrightarrow>
        broadcastEvents (snd (run (es @ [e]) s)) = pendingCollected s @ caughtDuring (es @ [e]) s
        \<and> pendingCollected (fst (run (es @ [e]) s)) = [])
   \<and> (startsRound e s \<longrightarrow>
        state (fst (handle e s)) = PLAYING \<and> pendingCollected (fst (handle e s)) = []
        \<and> gameStates (snd (handle e s)) = [])
   \<and> (state s \<noteq> PLAYING \<and> state (fst (handle e s)) = PLAYING \<longrightarrow> startsRound e s)
   \<and> (state s \<noteq> PLAYING \<and> noRoundStart es s \<longrightarrow>
        state (fst (run es s)) \<noteq> PLAYING \<and> gameStates (snd (run es s)) = []
        \<and> pendingCollected (fst (run es s)) = pendingCollected s)
   \<and> (state s \<noteq> PLAYING \<and> noRoundStart es s \<and> startsRound e (fst (run es s)) \<longrightarrow>
        state (fst (run (es @ [e]) s)) = PLAYING
        \<and> gameStates (snd (run (es @ [e]) s)) = []
        \<and> pendingCollected (fst (run (es @ [e]) s)) = [])"
proof -
  have a: "noRoundStart es s \<longrightarrow>
      broadcastEvents (snd (run es s)) @ pendingCollected (fst (run es s))
        = pendingCollected s @ caughtDuring es s"
    by (simp add: run_conservation)
  note one = step_facts [of e s]
  from one have b: "gameStates (snd (handle e s)) \<noteq> [] \<longleftrightarrow> flushes e s" by blast
  from one have c: "flushes e s \<longrightarrow>
        state s = PLAYING \<and> state (fst (handle e s)) = PLAYING
        \<and> pendingCollected (fst (handle e s)) = []
        \<and> broadcastEvents (snd (handle e s)) = pendingCollected s @ caughtIn e s" by blast
  have d: "noRoundStart es s \<and> flushes e (fst (run es s)) \<longrightarrow>
        broadcastEvents (snd (run (es @ [e]) s)) = pendingCollected s @ caughtDuring (es @ [e]) s
        \<and> pendingCollected (fst (run (es @ [e]) s)) = []"
  proof
    assume h: "noRoundStart es s \<and> flushes e (fst (run es s))"
    let ?s1 = "fst (run es s)"
    from h step_facts [of e ?s1]
    have f: "pendingCollected (fst (handle e ?s1)) = []"
      "broadcastEvents (snd (handle e ?s1)) = pendingCollected ?s1 @ caughtIn e ?s1" by blast+
    from h run_conservation [of es s]
    have r: "broadcastEvents (snd (run es s)) @ pendingCollected ?s1
        = pendingCollected s @ caughtDuring es s" by blast
    have "broadcastEvents (snd (run (es @ [e]) s))
        = (broadcastEvents (snd (run es s)) @ pendingCollected ?s1) @ caughtIn e ?s1"
      by (simp add: run_snoc broadcastEvents_append f)
    also have "\<dots> = pendingCollected s @ caughtDuring (es @ [e]) s"
      by (simp only: r caughtDuring_snoc append_assoc)
    finally show "broadcastEvents (snd (run (es @ [e]) s))
          = pendingCollected s @ caughtDuring (es @ [e]) s
        \<and> pendingCollected (fst (run (es @ [e]) s)) = []"
      using f by (simp add: run_snoc)
  qed
  from one have e1: "startsRound e s \<longrightarrow>
        state (fst (handle e s)) = PLAYING \<and> pendingCollected (fst (handle e s)) = []
        \<and> gameStates (snd (handle e s)) = []" by blast
  from one have f: "state s \<noteq> PLAYING \<and> state (fst (handle e s)) = PLAYING \<longrightarrow> startsRound e s"
    by blast
  have g: "state s \<noteq> PLAYING \<and> noRoundStart es s \<longrightarrow>
        state (fst (run es s)) \<noteq> PLAYING \<and> gameStates (snd (run es s)) = []
        \<and> pendingCollected (fst (run es s)) = pendingCollected s"
    using run_idle [of s es] by blast
  have h: "state s \<noteq> PLAYING \<and> noRoundStart es s \<and> startsRound e (fst (run es s)) \<longrightarrow>
        state (fst (run (es @ [e]) s)) = PLAYING
        \<and> gameStates (snd (run (es @ [e]) s)) = []
        \<and> pendingCollected (fst (run (es @ [e]) s)) = []"
  proof
    assume p: "state s \<noteq> PLAYING \<and> noRoundStart es s \<and> startsRound e (fst (run es s))"
    with run_idle [of s es] have q: "gameStates (snd (run es s)) = []" by blast
    from p step_facts [of e "fst (run es s)"]
    have "state (fst (handle e (fst (run es s)))) = PLAYING"
      "pendingCollected (fst (handle e (fst (run es s)))) = []"
      "gameStates (snd (handle e (fst (run es s)))) = []" by blast+
    with q show "state (fst (run (es @ [e]) s)) = PLAYING
        \<and> gameStates (snd (run (es @ [e]) s)) = []
        \<and> pendingCollected (fst (run (es @ [e]) s)) = []"
      by (simp add: run_snoc gameStates_append)
  qed
  from a b c d e1 f g h show ?thesis by blast
qed

lemma advancePhysics_quiet:
  assumes "coins s = []" "coinSpawnAccumulator s + dt < COIN_SPAWN_INTERVAL"
  shows "advancePhysics rnd dt s
     = (s\<lparr>timeLeft := timeLeft s - dt, coinSpawnAccumulator := coinSpawnAccumulator s + dt\<rparr>, [])"
proof -
  have sp: "spawnPhase rnd dt s
      = s\<lparr>timeLeft := timeLeft s - dt, coinSpawnAccumulator := coinSpawnAccumulator s + dt\<rparr>"
    using assms by (simp add: spawnPhase_def Let_def spawnLoop_idle)
  have "coinLoop dt (coins (spawnPhase rnd dt s)) (players s) [] = ([], players s, [])"
    unfolding sp using assms by simp
  from advancePhysics_unfold [OF this, unfolded sp] assms(1) show ?thesis
    by (cases s) simp
qed

lemma pendingRoom_move:
  "handleMove 40 4 (Some 100) 1010 noRandom {} pendingRoom
     = (pendingRoom\<lparr>timeLeft := 2999 / 100, coinSpawnAccumulator := 1 / 100,
          lastPhysicsTime := 1010\<rparr>, [])"
proof -
  let ?s1 = "pendingRoom\<lparr>players := setX 4 (clampX 100) (players pendingRoom)\<rparr>"
  have s1: "?s1 = pendingRoom"
    by (simp add: pendingRoom_def catchRoom_def initialRoom_def catchRoster_def setX_def
        clampX_def mkPlayer_def geometry_defs)
  have dt: "stepDt 1010 pendingRoom = 1 / 100"
    by (simp add: stepDt_def pendingRoom_def catchRoom_def initialRoom_def MAX_PHYSICS_DT_def)
  have q: "advancePhysics noRandom (1 / 100) pendingRoom
      = (pendingRoom\<lparr>timeLeft := 2999 / 100, coinSpawnAccumulator := 1 / 100\<rparr>, [])"
    using advancePhysics_quiet [of pendingRoom "1 / 100" noRandom]
    by (simp add: pendingRoom_def catchRoom_def initialRoom_def COIN_SPAWN_INTERVAL_def)
  have g: "state pendingRoom = PLAYING" "mapHas 4 (players pendingRoom)"
    "lastBroadcastTime pendingRoom = 1000"
    by (simp_all add: pendingRoom_def catchRoom_def initialRoom_def catchRoster_def mapHas_def)
  show ?thesis
    using g
    by (simp add: handleMove_def movePath_def s1 dt q Let_def BROADCAST_THROTTLE_MS_def)
qed

lemma pendingRoom_caught:
  "caughtDuring [Move 40 4 (Some 100) 1010 noRandom {}, Alarm 1200 noRandom {}] pendingRoom = []"
proof -
  let ?s1 = "pendingRoom\<lparr>players := setX 4 (clampX 100) (players pendingRoom)\<rparr>"
  let ?s2 = "pendingRoom\<lparr>timeLeft := 2999 / 100, coinSpawnAccumulator := 1 / 100,
          lastPhysicsTime := 1010\<rparr>"
  have s1: "?s1 = pendingRoom"
    by (simp add: pendingRoom_def catchRoom_def initialRoom_def catchRoster_def setX_def
        clampX_def mkPlayer_def geometry_defs)
  have a: "snd (advancePhysics noRandom dt pendingRoom) = []" if "dt < 1 / 2" for dt
    using advancePhysics_quiet [of pendingRoom dt noRandom] that
    by (simp add: pendingRoom_def catchRoom_def initialRoom_def COIN_SPAWN_INTERVAL_def)
  have b: "snd (advancePhysics noRandom (stepDt 1200 ?s2) ?s2) = []"
    using advancePhysics_quiet [of ?s2 "stepDt 1200 ?s2" noRandom]
    by (simp add: stepDt_def pendingRoom_def catchRoom_def initialRoom_def
        COIN_SPAWN_INTERVAL_def MAX_PHYSICS_DT_def)
  have dt: "stepDt 1010 pendingRoom = 1 / 100"
    by (simp add: stepDt_def pendingRoom_def catchRoom_def initialRoom_def MAX_PHYSICS_DT_def)
  have g: "state pendingRoom = PLAYING" "mapHas 4 (players pendingRoom)"
    by (simp_all add: pendingRoom_def catchRoom_def initialRoom_def catchRoster_def mapHas_def)
  show ?thesis
    using g by (simp add: pendingRoom_move s1 Let_def dt a b)
qed

theorem collected_flush_witness:
  "noRoundStart [Move 40 4 (Some 100) 1010 noRandom {}] pendingRoom
   \<and> pendingCollected pendingRoom = [\<lparr>playerId = 5, ex = 140, ey = 470\<rparr>]
   \<and> \<not> flushes (Move 40 4 (Some 100) 1010 noRandom {}) pendingRoom
   \<and> snd (run [Move 40 4 (Some 100) 1010 noRandom {}] pendingRoom) = []
   \<and> pendingCollected (fst (run [Move 40 4 (Some 100) 1010 noRandom {}] pendingRoom))
       = [\<lparr>playerId = 5, ex = 140, ey = 470\<rparr>]
   \<and> flushes (Alarm 1200 noRandom {}) (fst (run [Move 40 4 (Some 100) 1010 noRandom {}] pendingRoom))
   \<and> broadcastEvents
        (snd (run ([Move 40 4 (Some 100) 1010 noRandom {}] @ [Alarm 1200 noRandom {}]) pendingRoom))
       = [\<lparr>playerId = 5, ex = 140, ey = 470\<rparr>]
   \<and> pendingCollected
        (fst (run ([Move 40 4 (Some 100) 1010 noRandom {}] @ [Alarm 1200 noRandom {}]) pendingRoom))
       = []
   \<and> flushes (Alarm 1200 noRandom {}) catchRoom
   \<and> caughtIn (Alarm 1200 noRandom {}) catchRoom = [\<lparr>playerId = 4, ex = 130, ey = 505\<rparr>]
   \<and> gameStates (snd (handle (Alarm 1200 noRandom {}) catchRoom)) \<noteq> []
   \<and> broadcastEvents (snd (handle (Alarm 1200 noRandom {}) catchRoom))
       = [\<lparr>playerId = 4, ex = 130, ey = 505\<rparr>]
   \<and> noRoundStart [Close 4, Close 5] pendingRoom
   \<and> state (fst (run [Close 4, Close 5] pendingRoom)) = LOBBY
   \<and> gameStates (snd (run [Close 4, Close 5] pendingRoom)) = []
   \<and> pendingCollected (fst (run [Close 4, Close 5] pendingRoom))
       = [\<lparr>playerId = 5, ex = 140, ey = 470\<rparr>]
   \<and> state countdownRoom \<noteq> PLAYING
   \<and> pendingCollected countdownRoom = [\<lparr>playerId = 5, ex = 140, ey = 470\<rparr>]
   \<and> noRoundStart [Alarm 30200 noRandom {}] countdownRoom
   \<and> pendingCollected (fst (run [Alarm 30200 noRandom {}] countdownRoom))
       = [\<lparr>playerId = 5, ex = 140, ey = 470\<rparr>]
   \<and> startsRound (Alarm 31200 noRandom {}) (fst (run [Alarm 30200 noRandom {}] countdownRoom))
   \<and> state (fst (run ([Alarm 30200 noRandom {}] @ [Alarm 31200 noRandom {}]) countdownRoom)) = PLAYING
   \<and> gameStates (snd (run ([Alarm 30200 noRandom {}] @ [Alarm 31200 noRandom {}]) countdownRoom)) = []
   \<and> pendingCollected (fst (run ([Alarm 30200 noRandom {}] @ [Alarm 31200 noRandom {}]) countdownRoom))
       = []"
proof -
  let ?m = "Move 40 4 (Some 100) 1010 noRandom {}"
  let ?a = "Alarm 1200 noRandom {}"
  let ?ev = "\<lparr>playerId = 5, ex = 140, ey = 470\<rparr>"
  have n1: "noRoundStart [?m] pendingRoom" by simp
  have p0: "pendingCollected pendingRoom = [?ev]"
    by (simp add: pendingRoom_def)
  have r1: "run [?m] pendingRoom
      = (pendingRoom\<lparr>timeLeft := 2999 / 100, coinSpawnAccumulator := 1 / 100,
          lastPhysicsTime := 1010\<rparr>, [])"
    by (simp add: pendingRoom_move)
  have nf: "\<not> flushes ?m pendingRoom"
    by (simp add: pendingRoom_def catchRoom_def initialRoom_def BROADCAST_THROTTLE_MS_def)
  have f1: "flushes ?a (fst (run [?m] pendingRoom))"
    unfolding r1
    by (simp add: stepDt_def pendingRoom_def catchRoom_def initialRoom_def catchRoster_def
        MAX_PHYSICS_DT_def)
  from collected_flush [of "[?m]" pendingRoom ?a] n1 f1
  have d: "broadcastEvents (snd (run ([?m] @ [?a]) pendingRoom))
        = pendingCollected pendingRoom @ caughtDuring ([?m] @ [?a]) pendingRoom"
    and d2: "pendingCollected (fst (run ([?m] @ [?a]) pendingRoom)) = []"
    by blast+
  from d have d1: "broadcastEvents (snd (run ([?m] @ [?a]) pendingRoom)) = [?ev]"
    unfolding p0 append.simps pendingRoom_caught by (simp del: run.simps)
  have w1: "snd (run [?m] pendingRoom) = []"
    "pendingCollected (fst (run [?m] pendingRoom)) = [?ev]"
    unfolding r1 by (simp_all add: pendingRoom_def)
  have f2: "flushes ?a catchRoom"
    by (simp add: stepDt_def catchRoom_def initialRoom_def catchRoster_def MAX_PHYSICS_DT_def)
  have dt: "stepDt 1200 catchRoom = MAX_PHYSICS_DT"
    by (simp add: stepDt_def catchRoom_def initialRoom_def MAX_PHYSICS_DT_def)
  have c2: "caughtIn ?a catchRoom = [\<lparr>playerId = 4, ex = 130, ey = 505\<rparr>]"
    by (simp add: dt catchRoom_step) (simp add: catchRoom_def initialRoom_def catchRoster_def)
  have pc: "pendingCollected catchRoom = []" by (simp add: catchRoom_def initialRoom_def)
  from collected_flush [of "[]" catchRoom ?a] f2
  have g2: "gameStates (snd (handle ?a catchRoom)) \<noteq> []"
    and "broadcastEvents (snd (handle ?a catchRoom)) = pendingCollected catchRoom @ caughtIn ?a catchRoom"
    by blast+
  then have b2: "broadcastEvents (snd (handle ?a catchRoom)) = [\<lparr>playerId = 4, ex = 130, ey = 505\<rparr>]"
    unfolding pc c2 by simp
  have n4: "noRoundStart [Close 4, Close 5] pendingRoom" by simp
  have ab: "state (fst (run [Close 4, Close 5] pendingRoom)) = LOBBY"
    "gameStates (snd (run [Close 4, Close 5] pendingRoom)) = []"
    by (simp_all add: pendingRoom_def catchRoom_def catchRoster_def initialRoom_def
        handleClose_def mapDelete_def Let_def returnToLobby_def broadcastLobbyMsg_def)
  from collected_flush [of "[Close 4, Close 5]" pendingRoom ?a] n4
  have "broadcastEvents (snd (run [Close 4, Close 5] pendingRoom))
          @ pendingCollected (fst (run [Close 4, Close 5] pendingRoom))
        = pendingCollected pendingRoom @ caughtDuring [Close 4, Close 5] pendingRoom"
    by blast
  then have ab3: "pendingCollected (fst (run [Close 4, Close 5] pendingRoom)) = [?ev]"
    unfolding quiet_events [OF ab(2)] p0 by (simp del: run.simps)
  let ?c1 = "Alarm 30200 noRandom {}"
  let ?c2 = "Alarm 31200 noRandom {}"
  have k: "state countdownRoom \<noteq> PLAYING" "pendingCollected countdownRoom = [?ev]"
    by (simp_all add: countdownRoom_def pendingRoom_def)
  have n3: "noRoundStart [?c1] countdownRoom"
    by (simp add: countdownRoom_def)
  have r3: "fst (run [?c1] countdownRoom) = countdownRoom\<lparr>countdownSeconds := 1\<rparr>"
    by (simp add: handleAlarm_def countdownRoom_def Let_def)
  have s3: "startsRound ?c2 (fst (run [?c1] countdownRoom))"
    unfolding r3 by (simp add: countdownRoom_def)
  from collected_flush [of "[?c1]" countdownRoom ?c2] k n3
  have i1: "pendingCollected (fst (run [?c1] countdownRoom)) = pendingCollected countdownRoom"
    by blast
  from collected_flush [of "[?c1]" countdownRoom ?c2] k n3 s3
  have l1: "state (fst (run ([?c1] @ [?c2]) countdownRoom)) = PLAYING"
    and l2: "gameStates (snd (run ([?c1] @ [?c2]) countdownRoom)) = []"
    and l3: "pendingCollected (fst (run ([?c1] @ [?c2]) countdownRoom)) = []"
    by blast+
  from i1 k have i2: "pendingCollected (fst (run [?c1] countdownRoom)) = [?ev]" by simp
  from n1 p0 nf w1 f1 d1 d2 f2 c2 g2 b2 n4 ab ab3 k n3 i2 s3 l1 l2 l3 show ?thesis by blast
qed

end
